theory Spec2Isabelle
  imports Main "HOL-Library.Sublist"
begin

section \<open>The hot-reload supervisor of \<^verbatim>\<open>demo-editing/hot_reload_server.py\<close>\<close>

text \<open>
  The module consists of a file-change handler (\<^verbatim>\<open>HotReloadHandler\<close>) and a process
  manager (\<^verbatim>\<open>GradioServerManager\<close>). Both are embedded with explicit state passing.
  The operating system is a \<open>world\<close>: a clock in milliseconds that \<^verbatim>\<open>time.sleep\<close> and
  the blocking waits advance and \<^verbatim>\<open>time.time()\<close> reads, a process table, a script that
  says how each successive \<^verbatim>\<open>subprocess.Popen\<close> call behaves, and the trace of everything
  the program printed or did to a process, in order.
\<close>

subsection \<open>File-system events and the path tests\<close>

record event =
  is_directory :: bool
  src_path :: string

text \<open>\<^verbatim>\<open>s.endswith(suf)\<close> and \<^verbatim>\<open>sub in s\<close> on Python strings.\<close>

definition endswith :: "string \<Rightarrow> string \<Rightarrow> bool" where
  "endswith s suf = suffix suf s"

definition contains :: "string \<Rightarrow> string \<Rightarrow> bool" where
  "contains sub s = sublist sub s"

text \<open>\<^verbatim>\<open>Path(p).name\<close>: the last component of the path.\<close>

definition path_name :: "string \<Rightarrow> string" where
  "path_name p = rev (takeWhile (\<lambda>c. c \<noteq> CHR ''/'') (rev p))"

subsection \<open>Processes, exceptions and the world\<close>

datatype exn = NoSuchProcess | AccessDenied | ZombieProcess | OSError

text \<open>
  How a process answers \<^verbatim>\<open>terminate()\<close> followed by \<^verbatim>\<open>wait(timeout=5)\<close>: it exits after
  so many milliseconds, it never exits on the signal, or the call raises an exception
  other than \<^verbatim>\<open>TimeoutExpired\<close>. How it answers \<^verbatim>\<open>kill()\<close> followed by \<^verbatim>\<open>wait()\<close>: it
  exits after so many milliseconds, or the call raises.
\<close>

datatype term_resp = Term_exits nat | Term_hangs | Term_raises exn

datatype kill_resp = Kill_exits nat | Kill_raises exn

record pinfo =
  alive :: bool
  child :: bool
  conn_ports :: "int list"
  on_term :: term_resp
  on_kill :: kill_resp
  on_pskill :: "exn option"

text \<open>
  \<open>child\<close> marks the processes the manager itself launched; \<open>conn_ports\<close> are the local
  ports of the connections \<^verbatim>\<open>psutil\<close> reports for the process; \<open>on_pskill\<close> is the
  exception \<^verbatim>\<open>psutil\<close>'s \<^verbatim>\<open>proc.kill()\<close> raises, if any.

  One \<^verbatim>\<open>Popen\<close> call either raises, or creates a process which has or has not exited
  by the time \<^verbatim>\<open>start_server\<close> polls it three seconds later.
\<close>

datatype launch = Popen_raises exn | Spawn bool pinfo

datatype msg =
    Additional_change string
  | File_changed bool string
  | Restarting
  | Starting int
  | Started_ok
  | Start_failed
  | Start_error
  | Restarted_ok
  | Restart_failed
  | Stopping_current
  | Force_killing
  | Stop_error
  | Port_kill int nat
  | Port_error int
  | Retry int int
  | Max_retries
  | Stopping
  | Stopped
  | Failed_to_start

datatype action =
    Print msg
  | Sleep int
  | Popen nat
  | Terminate nat
  | Kill nat
  | Wait nat int
  | Ps_kill nat

record world =
  clock :: int
  procs :: "pinfo list"
  popen_script :: "nat \<Rightarrow> launch"
  popen_calls :: nat
  trace :: "action list"

text \<open>A process id is an index into the process table.\<close>

definition is_alive :: "world \<Rightarrow> nat \<Rightarrow> bool" where
  "is_alive w p = (p < length (procs w) \<and> alive (procs w ! p))"

definition emit :: "action \<Rightarrow> world \<Rightarrow> world" where
  "emit a w = w\<lparr>trace := trace w @ [a]\<rparr>"

definition sleep :: "int \<Rightarrow> world \<Rightarrow> world" where
  "sleep d w = w\<lparr>clock := clock w + d, trace := trace w @ [Sleep d]\<rparr>"

definition wait :: "nat \<Rightarrow> int \<Rightarrow> world \<Rightarrow> world" where
  "wait p d w = w\<lparr>clock := clock w + d, trace := trace w @ [Wait p d]\<rparr>"

definition set_dead :: "nat \<Rightarrow> world \<Rightarrow> world" where
  "set_dead p w = w\<lparr>procs := (procs w)[p := (procs w ! p)\<lparr>alive := False\<rparr>]\<rparr>"

subsection \<open>\<^verbatim>\<open>GradioServerManager\<close>\<close>

record manager =
  process :: "nat option"
  port :: int
  max_retries :: int
  retry_count :: int

definition init_manager :: manager where
  "init_manager = \<lparr>process = None, port = 7861, max_retries = 3, retry_count = 0\<rparr>"

text \<open>
  \<^verbatim>\<open>kill_process_on_port\<close>. The inner loop runs over the connections of one process: each
  connection on the port prints a line, kills the process and sleeps one second; an
  exception leaves the loop.
\<close>

fun kill_conns :: "int \<Rightarrow> nat \<Rightarrow> int list \<Rightarrow> world \<Rightarrow> exn option \<times> world" where
  "kill_conns prt p [] w = (None, w)"
| "kill_conns prt p (c # cs) w =
     (if c = prt then
        (let w1 = emit (Print (Port_kill prt p)) w in
         case on_pskill (procs w1 ! p) of
           Some e \<Rightarrow> (Some e, w1)
         | None \<Rightarrow> kill_conns prt p cs (sleep 1000 (emit (Ps_kill p) (set_dead p w1))))
      else kill_conns prt p cs w)"

text \<open>
  The outer loop runs over the processes; the three \<^verbatim>\<open>psutil\<close> exceptions are swallowed
  per process, any other exception ends the scan.
\<close>

fun scan_procs :: "int \<Rightarrow> nat list \<Rightarrow> world \<Rightarrow> exn option \<times> world" where
  "scan_procs prt [] w = (None, w)"
| "scan_procs prt (p # ps) w =
     (case kill_conns prt p (conn_ports (procs w ! p)) w of
        (None, w') \<Rightarrow> scan_procs prt ps w'
      | (Some e, w') \<Rightarrow>
          if e = NoSuchProcess \<or> e = AccessDenied \<or> e = ZombieProcess
          then scan_procs prt ps w' else (Some e, w'))"

definition kill_process_on_port :: "int \<Rightarrow> world \<Rightarrow> world" where
  "kill_process_on_port prt w =
     (case scan_procs prt (filter (is_alive w) [0..<length (procs w)]) w of
        (None, w') \<Rightarrow> w'
      | (Some e, w') \<Rightarrow> emit (Print (Port_error prt)) w')"

text \<open>
  \<^verbatim>\<open>start_server\<close>. Everything is inside \<^verbatim>\<open>try ... except Exception\<close>, so the result
  is always a boolean. The reader thread for the child's output only prints and is left
  out.
\<close>

definition start_server :: "manager \<Rightarrow> world \<Rightarrow> bool \<times> manager \<times> world" where
  "start_server m w =
     (let w1 = emit (Print (Starting (port m))) (kill_process_on_port (port m) w);
          w2 = w1\<lparr>popen_calls := Suc (popen_calls w1)\<rparr>
      in case popen_script w1 (popen_calls w1) of
           Popen_raises e \<Rightarrow> (False, m, emit (Print Start_error) w2)
         | Spawn exits info \<Rightarrow>
             (let pid = length (procs w2);
                  w3 = emit (Popen pid) (w2\<lparr>procs := procs w2 @ [info\<lparr>alive := True, child := True\<rparr>]\<rparr>);
                  m1 = m\<lparr>process := Some pid\<rparr>;
                  w4 = sleep 3000 w3;
                  w5 = (if exits then set_dead pid w4 else w4)
              in if is_alive w5 pid
                 then (True, m1\<lparr>retry_count := 0\<rparr>, emit (Print Started_ok) w5)
                 else (False, m1, emit (Print Start_failed) w5)))"

text \<open>
  \<^verbatim>\<open>kill_current_process\<close>. The forced kill runs inside the \<^verbatim>\<open>except TimeoutExpired\<close>
  handler, so an exception raised there is not caught by the sibling
  \<^verbatim>\<open>except Exception\<close> and leaves the method.
\<close>

definition kill_current_process :: "manager \<Rightarrow> world \<Rightarrow> exn option \<times> world" where
  "kill_current_process m w =
     (case process m of
        None \<Rightarrow> (None, w)
      | Some p \<Rightarrow>
          if is_alive w p then
            (let w1 = emit (Terminate p) (emit (Print Stopping_current) w);
                 forced = (\<lambda>u.
                   (let w2 = emit (Kill p) (emit (Print Force_killing) (wait p 5000 u)) in
                    case on_kill (procs w2 ! p) of
                      Kill_raises e \<Rightarrow> (Some e, w2)
                    | Kill_exits d \<Rightarrow> (None, wait p (int d) (set_dead p w2))))
             in case on_term (procs w1 ! p) of
                  Term_raises e \<Rightarrow> (None, emit (Print Stop_error) w1)
                | Term_hangs \<Rightarrow> forced w1
                | Term_exits d \<Rightarrow>
                    if d \<le> 5000 then (None, wait p (int d) (set_dead p w1)) else forced w1)
          else (None, w))"

text \<open>
  \<^verbatim>\<open>restart_server\<close> and \<^verbatim>\<open>handle_restart_failure\<close> call each other. The recursion ends
  because every round through \<^verbatim>\<open>handle_restart_failure\<close> increments \<open>retry_count\<close>, a
  failed \<^verbatim>\<open>start_server\<close> leaves it alone, and the recursive call is made only below
  \<open>max_retries\<close>.
\<close>

definition retry_measure :: "manager \<times> world + manager \<times> world \<Rightarrow> nat" where
  "retry_measure x =
     (case x of
        Inl (m, w) \<Rightarrow> 2 * nat (max_retries m - retry_count m) + 1
      | Inr (m, w) \<Rightarrow> 2 * nat (max_retries m - retry_count m))"

function restart_server :: "manager \<Rightarrow> world \<Rightarrow> exn option \<times> manager \<times> world"
  and handle_restart_failure :: "manager \<Rightarrow> world \<Rightarrow> exn option \<times> manager \<times> world" where
  "restart_server m w =
     (case kill_current_process m (emit (Print Restarting) w) of
        (Some e, w1) \<Rightarrow> (Some e, m, w1)
      | (None, w1) \<Rightarrow>
          (case start_server m (sleep 2000 w1) of
             (ok, m', w2) \<Rightarrow>
               if ok then (None, m', emit (Print Restarted_ok) w2)
               else handle_restart_failure m' (emit (Print Restart_failed) w2)))"
| "handle_restart_failure m w =
     (let m1 = m\<lparr>retry_count := retry_count m + 1\<rparr> in
      if retry_count m1 < max_retries m1 then
        restart_server m1
          (sleep 3000 (emit (Print (Retry (retry_count m1) (max_retries m1))) w))
      else (None, m1\<lparr>retry_count := 0\<rparr>, emit (Print Max_retries) w))"
  by pat_completeness auto
termination
  apply (relation "measure retry_measure")
    apply simp
   apply (auto simp: retry_measure_def start_server_def Let_def split: launch.splits if_splits)
  done

declare restart_server.simps [simp del]

declare handle_restart_failure.simps [simp del]

definition stop_server :: "manager \<Rightarrow> world \<Rightarrow> exn option \<times> world" where
  "stop_server m w =
     (case kill_current_process m (emit (Print Stopping) w) of
        (Some e, w1) \<Rightarrow> (Some e, w1)
      | (None, w1) \<Rightarrow> (None, emit (Print Stopped) w1))"

subsection \<open>\<^verbatim>\<open>HotReloadHandler\<close>\<close>

text \<open>
  Times are milliseconds. \<open>reset_due\<close> stands for the daemon thread \<^verbatim>\<open>reset_pending\<close>
  that the handler starts after a restart: it holds the time at which that thread wakes
  up and clears \<open>pending_restart\<close>.
\<close>

record handler =
  last_reload :: int
  reload_delay :: int
  pending_restart :: bool
  reset_due :: "int option"

definition init_handler :: handler where
  "init_handler =
     \<lparr>last_reload = 0, reload_delay = 2000, pending_restart = False, reset_due = None\<rparr>"

type_synonym state = "handler \<times> manager \<times> world"

definition handle_file_change :: "event \<Rightarrow> state \<Rightarrow> exn option \<times> state" where
  "handle_file_change ev s =
     (case s of (h, m, w) \<Rightarrow>
        if is_directory ev then (None, s)
        else if \<not> (endswith (src_path ev) ''.py'' \<or> endswith (src_path ev) ''.css'')
          then (None, s)
        else if contains ''__pycache__'' (src_path ev) \<or> endswith (src_path ev) ''.pyc''
          then (None, s)
        else
          (let current_time = clock w in
           if current_time - last_reload h < reload_delay h then (None, s)
           else if pending_restart h
             then (None, h, m, emit (Print (Additional_change (path_name (src_path ev)))) w)
           else
             (let h1 = h\<lparr>last_reload := current_time, pending_restart := True\<rparr>;
                  w1 = emit (Print Restarting)
                         (emit (Print (File_changed (endswith (src_path ev) ''.css'')
                                         (path_name (src_path ev)))) w)
              in case restart_server m w1 of
                   (Some e, m', w') \<Rightarrow> (Some e, h1, m', w')
                 | (None, m', w') \<Rightarrow>
                     (None, h1\<lparr>reset_due := Some (clock w' + 1000)\<rparr>, m', w'))))"

text \<open>The body of the \<^verbatim>\<open>reset_pending\<close> thread, run once its second of sleep is over.\<close>

definition fire_timers :: "handler \<Rightarrow> world \<Rightarrow> handler" where
  "fire_timers h w =
     (case reset_due h of
        None \<Rightarrow> h
      | Some t \<Rightarrow>
          if t \<le> clock w then h\<lparr>pending_restart := False, reset_due := None\<rparr> else h)"

text \<open>
  The observer delivers the events one after the other from a single thread. An event
  that arrives at time \<open>t\<close> is handled at \<open>t\<close>, or as soon as the handler has returned
  from the events before it; an exception raised by the handler ends the observer thread.
\<close>

fun dispatch :: "(int \<times> event) list \<Rightarrow> state \<Rightarrow> exn option \<times> state" where
  "dispatch [] s = (None, s)"
| "dispatch ((t, ev) # evs) (h, m, w) =
     (let w1 = w\<lparr>clock := max (clock w) t\<rparr>
      in case handle_file_change ev (fire_timers h w1, m, w1) of
           (Some e, s') \<Rightarrow> (Some e, s')
         | (None, s') \<Rightarrow> dispatch evs s')"

subsection \<open>\<^verbatim>\<open>main\<close>\<close>


subsection \<open>The order of checks as the specification words it\<close>

text \<open>
  The specification describes the handler as a list of checks applied in order: the
  first check that fires decides. \<open>In_flight\<close> logs the event and drops it, every other
  check drops it silently, and an event that passes all of them is accepted.
\<close>

datatype check = Is_dir | Bad_ext | Excluded | In_flight | Debounced

fun check_hit :: "check \<Rightarrow> event \<Rightarrow> handler \<Rightarrow> int \<Rightarrow> bool" where
  "check_hit Is_dir ev h now = is_directory ev"
| "check_hit Bad_ext ev h now =
     (\<not> (endswith (src_path ev) ''.py'' \<or> endswith (src_path ev) ''.css''))"
| "check_hit Excluded ev h now =
     (contains ''__pycache__'' (src_path ev) \<or> endswith (src_path ev) ''.pyc'')"
| "check_hit In_flight ev h now = pending_restart h"
| "check_hit Debounced ev h now = (now - last_reload h < reload_delay h)"

definition accept_event :: "event \<Rightarrow> state \<Rightarrow> exn option \<times> state" where
  "accept_event ev s =
     (case s of (h, m, w) \<Rightarrow>
        (let h1 = h\<lparr>last_reload := clock w, pending_restart := True\<rparr>;
             r = restart_server m
                   (emit (Print Restarting)
                      (emit (Print (File_changed (endswith (src_path ev) ''.css'')
                                      (path_name (src_path ev)))) w))
         in (fst r,
             if fst r = None then h1\<lparr>reset_due := Some (clock (snd (snd r)) + 1000)\<rparr>
             else h1,
             snd r)))"

definition apply_checks :: "check list \<Rightarrow> event \<Rightarrow> state \<Rightarrow> exn option \<times> state" where
  "apply_checks order ev s =
     (case s of (h, m, w) \<Rightarrow>
        (case find (\<lambda>c. check_hit c ev h (clock w)) order of
           None \<Rightarrow> accept_event ev s
         | Some In_flight \<Rightarrow>
             (None, h, m, emit (Print (Additional_change (path_name (src_path ev)))) w)
         | Some c \<Rightarrow> (None, s)))"

text \<open>The order the specification gives, and the order of the \<^verbatim>\<open>if\<close> statements.\<close>

definition spec_order :: "check list" where
  "spec_order = [Is_dir, Bad_ext, Excluded, In_flight, Debounced]"

definition code_order :: "check list" where
  "code_order = [Is_dir, Bad_ext, Excluded, Debounced, In_flight]"

text \<open>
  The observer's loop over the events, with the handler replaced by the checks in a given
  order.
\<close>

fun dispatch_by :: "check list \<Rightarrow> (int \<times> event) list \<Rightarrow> state \<Rightarrow> exn option \<times> state" where
  "dispatch_by order [] s = (None, s)"
| "dispatch_by order ((t, ev) # evs) (h, m, w) =
     (let w1 = w\<lparr>clock := max (clock w) t\<rparr>
      in case apply_checks order ev (fire_timers h w1, m, w1) of
           (Some e, s') \<Rightarrow> (Some e, s')
         | (None, s') \<Rightarrow> dispatch_by order evs s')"


subsection \<open>Concrete inputs\<close>

definition idle_world :: world where
  "idle_world =
     \<lparr>clock = 1500, procs = [], popen_script = (\<lambda>n. Popen_raises OSError),
      popen_calls = 0, trace = []\<rparr>"

definition py_event :: event where
  "py_event = \<lparr>is_directory = False, src_path = ''demo-editing/ui_components.py''\<rparr>"

definition dir_event :: event where
  "dir_event = \<lparr>is_directory = True, src_path = ''minigpt4/models.py''\<rparr>"

definition pyc_event :: event where
  "pyc_event = \<lparr>is_directory = False, src_path = ''minigpt4/__pycache__/a.pyc''\<rparr>"

definition cache_event :: event where
  "cache_event = \<lparr>is_directory = False, src_path = ''minigpt4/__pycache__/a.py''\<rparr>"

definition healthy :: pinfo where
  "healthy = \<lparr>alive = True, child = True, conn_ports = [7861], on_term = Term_exits 200,
              on_kill = Kill_exits 10, on_pskill = None\<rparr>"

definition late_world :: world where
  "late_world =
     \<lparr>clock = 10000, procs = [], popen_script = (\<lambda>n. Spawn False healthy),
      popen_calls = 0, trace = []\<rparr>"


text \<open>The handler and the world after \<open>py_event\<close> has been handled in \<open>late_world\<close>.\<close>

definition restarted_world :: world where
  "restarted_world =
     \<lparr>clock = 15000, procs = [healthy], popen_script = (\<lambda>n. Spawn False healthy),
      popen_calls = 1,
      trace = [Print (File_changed False ''ui_components.py''), Print Restarting,
               Print Restarting, Sleep 2000, Print (Starting 7861), Popen 0, Sleep 3000,
               Print Started_ok, Print Restarted_ok]\<rparr>"

definition restarted_handler :: handler where
  "restarted_handler =
     \<lparr>last_reload = 10000, reload_delay = 2000, pending_restart = True,
      reset_due = Some 16000\<rparr>"









text \<open>
  A manager whose server is process 0, and a world in which that process ignores the
  terminate signal and \<^verbatim>\<open>kill()\<close> raises.
\<close>

definition running_manager :: manager where
  "running_manager = init_manager\<lparr>process := Some 0\<rparr>"

definition stubborn :: pinfo where
  "stubborn = \<lparr>alive = True, child = True, conn_ports = [7861], on_term = Term_hangs,
               on_kill = Kill_raises OSError, on_pskill = None\<rparr>"

definition stuck_world :: world where
  "stuck_world =
     \<lparr>clock = 15000, procs = [stubborn], popen_script = (\<lambda>n. Spawn False healthy),
      popen_calls = 1, trace = []\<rparr>"








definition flaky_world :: world where
  "flaky_world =
     \<lparr>clock = 15000, procs = [healthy],
      popen_script = (\<lambda>n. if n = 0 then Spawn False healthy else Spawn True healthy),
      popen_calls = 1, trace = []\<rparr>"

definition abandoned_world :: world where
  "abandoned_world =
     \<lparr>clock = 36200,
      procs = [healthy\<lparr>alive := False\<rparr>, healthy\<lparr>alive := False\<rparr>,
               healthy\<lparr>alive := False\<rparr>, healthy\<lparr>alive := False\<rparr>],
      popen_script = (\<lambda>n. if n = 0 then Spawn False healthy else Spawn True healthy),
      popen_calls = 4,
      trace = [Print Restarting, Print Stopping_current, Terminate 0, Wait 0 200,
        Sleep 2000, Print (Starting 7861), Popen 1, Sleep 3000,
        Print Start_failed, Print Restart_failed, Print (Retry 1 3),
        Sleep 3000, Print Restarting, Sleep 2000, Print (Starting 7861),
        Popen 2, Sleep 3000, Print Start_failed, Print Restart_failed,
        Print (Retry 2 3), Sleep 3000, Print Restarting, Sleep 2000,
        Print (Starting 7861), Popen 3, Sleep 3000, Print Start_failed,
        Print Restart_failed, Print Max_retries]\<rparr>"

definition started_world :: world where
  "started_world =
     \<lparr>clock = 13000, procs = [healthy], popen_script = (\<lambda>n. Spawn False healthy),
      popen_calls = 1,
      trace = [Print (Starting 7861), Popen 0, Sleep 3000, Print Started_ok]\<rparr>"


subsection \<open>Notions used in the properties\<close>

text \<open>
  The handler prints the \<open>File_changed\<close> line exactly when it accepts an event, just before
  it calls \<^verbatim>\<open>restart_server\<close>; counting these lines in the trace counts the restarts
  the handler has triggered.
\<close>

fun is_accept_line :: "action \<Rightarrow> bool" where
  "is_accept_line (Print (File_changed css name)) = True"
| "is_accept_line a = False"

definition restarts_triggered :: "action list \<Rightarrow> nat" where
  "restarts_triggered tr = length (filter is_accept_line tr)"

definition advances :: "world \<Rightarrow> world \<Rightarrow> bool" where
  "advances w w' \<longleftrightarrow>
     clock w \<le> clock w' \<and> popen_script w' = popen_script w
     \<and> popen_calls w \<le> popen_calls w' \<and> prefix (trace w) (trace w')
     \<and> restarts_triggered (trace w') = restarts_triggered (trace w)
     \<and> length (procs w) \<le> length (procs w')
     \<and> (\<forall>i<length (procs w).
           procs w' ! i = procs w ! i \<or> procs w' ! i = (procs w ! i)\<lparr>alive := False\<rparr>)"

text \<open>
  \<open>advances w w'\<close>: the manager's operations only move the world forward. The clock and
  the number of \<^verbatim>\<open>Popen\<close> calls do not decrease, the script is untouched, the trace is
  extended, no restart is triggered, and a process already in the table is left alone or
  marked dead.

  \<open>launch_world\<close> is the world in which \<^verbatim>\<open>start_server\<close> calls \<^verbatim>\<open>Popen\<close>, and
  \<open>spawned\<close> the world three seconds after a successful call.
\<close>

definition launch_world :: "manager \<Rightarrow> world \<Rightarrow> world" where
  "launch_world m w = emit (Print (Starting (port m))) (kill_process_on_port (port m) w)"

definition spawned :: "pinfo \<Rightarrow> world \<Rightarrow> world" where
  "spawned info u =
     sleep 3000 (emit (Popen (length (procs u)))
       (u\<lparr>popen_calls := Suc (popen_calls u),
          procs := procs u @ [info\<lparr>alive := True, child := True\<rparr>]\<rparr>))"

text \<open>
  The restart decision of the handler: an event is \<open>eligible\<close> when its path passes the
  three path tests, and the handler \<open>accepts\<close> it when none of the five checks fires.
\<close>

definition eligible :: "event \<Rightarrow> bool" where
  "eligible ev \<longleftrightarrow>
     \<not> is_directory ev
     \<and> (endswith (src_path ev) ''.py'' \<or> endswith (src_path ev) ''.css'')
     \<and> \<not> (contains ''__pycache__'' (src_path ev) \<or> endswith (src_path ev) ''.pyc'')"


definition accepts :: "event \<Rightarrow> handler \<Rightarrow> int \<Rightarrow> bool" where
  "accepts ev h now = (find (\<lambda>c. check_hit c ev h now) code_order = None)"



text \<open>
  The managed process is alive; a process whose \<^verbatim>\<open>terminate()\<close> and \<^verbatim>\<open>kill()\<close> do not
  raise; a manager whose live process, if any, is such a process. \<open>forced_kill_raised\<close>
  is the world in which \<^verbatim>\<open>kill()\<close> raises inside the \<^verbatim>\<open>except TimeoutExpired\<close> handler.
\<close>

definition managed_alive :: "manager \<Rightarrow> world \<Rightarrow> bool" where
  "managed_alive m w = (case process m of None \<Rightarrow> False | Some p \<Rightarrow> is_alive w p)"

definition signals_ok :: "pinfo \<Rightarrow> bool" where
  "signals_ok info \<longleftrightarrow>
     (case on_term info of Term_raises e \<Rightarrow> False | _ \<Rightarrow> True)
     \<and> (case on_kill info of Kill_raises e \<Rightarrow> False | _ \<Rightarrow> True)"

definition responsive :: "manager \<Rightarrow> world \<Rightarrow> bool" where
  "responsive m w =
     (case process m of None \<Rightarrow> True | Some p \<Rightarrow> is_alive w p \<longrightarrow> signals_ok (procs w ! p))"

definition forced_kill_raised :: "nat \<Rightarrow> world \<Rightarrow> world" where
  "forced_kill_raised p w =
     emit (Kill p) (emit (Print Force_killing) (wait p 5000
       (emit (Terminate p) (emit (Print Stopping_current) w))))"

text \<open>
  A handler is \<open>settled\<close> in a world when its debounce interval is at most the two seconds
  that every restart takes and, while a restart is pending, the debounce interval since
  the last accepted event is over.
\<close>

definition settled :: "handler \<Rightarrow> world \<Rightarrow> bool" where
  "settled h w \<longleftrightarrow>
     reload_delay h \<le> 2000 \<and> (pending_restart h \<longrightarrow> last_reload h + 2000 \<le> clock w)"

text \<open>
  Notions for the retry loop. A launch fails when \<^verbatim>\<open>Popen\<close> raises or the child has
  exited when it is polled; \<open>fails_from w k\<close> says that the next \<open>k\<close> launches fail. The
  retry lines of a trace count the retries announced. \<open>quiet\<close> relates two worlds between
  which nothing was launched, no retry was announced and the process table kept its
  length. A process \<open>refuses\<close> when its \<^verbatim>\<open>terminate()\<close> raises; the manager is \<open>calm\<close> when
  its process, if alive, refuses, and \<open>stoppable\<close> when \<^verbatim>\<open>kill_current_process\<close> returns
  without an exception. \<open>gave_up\<close> describes the result of a restart that was abandoned
  after \<open>k\<close> launches and \<open>j\<close> announced retries.
\<close>

definition launch_fails :: "launch \<Rightarrow> bool" where
  "launch_fails l = (case l of Popen_raises e \<Rightarrow> True | Spawn exits info \<Rightarrow> exits)"

fun is_retry_line :: "action \<Rightarrow> bool" where
  "is_retry_line (Print (Retry i n)) = True"
| "is_retry_line a = False"

definition retry_lines :: "action list \<Rightarrow> nat" where
  "retry_lines tr = length (filter is_retry_line tr)"

definition quiet :: "world \<Rightarrow> world \<Rightarrow> bool" where
  "quiet w w' \<longleftrightarrow>
     popen_calls w' = popen_calls w \<and> retry_lines (trace w') = retry_lines (trace w)
     \<and> length (procs w') = length (procs w)"

definition refuses :: "pinfo \<Rightarrow> bool" where
  "refuses info = (case on_term info of Term_raises e \<Rightarrow> True | _ \<Rightarrow> False)"

definition calm :: "manager \<Rightarrow> world \<Rightarrow> bool" where
  "calm m w =
     (case process m of None \<Rightarrow> True | Some p \<Rightarrow> is_alive w p \<longrightarrow> refuses (procs w ! p))"

definition stoppable :: "manager \<Rightarrow> world \<Rightarrow> bool" where
  "stoppable m w \<longleftrightarrow> fst (kill_current_process m w) = None"

definition fails_from :: "world \<Rightarrow> nat \<Rightarrow> bool" where
  "fails_from w k =
     list_all (\<lambda>n. launch_fails (popen_script w n)) [popen_calls w ..< popen_calls w + k]"

definition gave_up ::
  "manager \<Rightarrow> world \<Rightarrow> nat \<Rightarrow> nat \<Rightarrow> bool \<Rightarrow> exn option \<times> manager \<times> world \<Rightarrow> bool" where
  "gave_up m w k j b r =
     (case r of (x, m', w') \<Rightarrow>
        x = None \<and> popen_calls w' = popen_calls w + k
        \<and> retry_lines (trace w') = retry_lines (trace w) + j
        \<and> retry_count m' = 0 \<and> max_retries m' = max_retries m
        \<and> calm m' w' \<and> (b \<longrightarrow> \<not> managed_alive m' w')
        \<and> trace w' \<noteq> [] \<and> last (trace w') = Print Max_retries)"


section \<open>Properties\<close>

subsection \<open>Evaluating the path tests\<close>

lemma py_event_path:
  "endswith (src_path py_event) ''.py''"
  "\<not> endswith (src_path py_event) ''.css''"
  "\<not> endswith (src_path py_event) ''.pyc''"
  "path_name (src_path py_event) = ''ui_components.py''"
  "\<not> is_directory py_event"
  by (code_simp, code_simp, code_simp, code_simp, code_simp)

lemma py_event_clean: "\<not> contains ''__pycache__'' (src_path py_event)"
  by code_simp

lemma pyc_event_path: "endswith (src_path pyc_event) ''.pyc''"
  by code_simp

lemma cache_event_path: "contains ''__pycache__'' (src_path cache_event)"
  by code_simp

subsection \<open>The manager only moves the world forward\<close>

lemma advances_refl: "advances w w"
  by (simp add: advances_def)

lemma advances_trans:
  assumes "advances a b" and "advances b c"
  shows "advances a c"
proof -
  have "\<forall>i<length (procs a).
           procs c ! i = procs a ! i \<or> procs c ! i = (procs a ! i)\<lparr>alive := False\<rparr>"
  proof (intro allI impI)
    fix i assume i: "i < length (procs a)"
    then have ib: "i < length (procs b)" using assms(1) by (simp add: advances_def)
    have 1: "procs b ! i = procs a ! i \<or> procs b ! i = (procs a ! i)\<lparr>alive := False\<rparr>"
      using assms(1) i by (simp add: advances_def)
    have 2: "procs c ! i = procs b ! i \<or> procs c ! i = (procs b ! i)\<lparr>alive := False\<rparr>"
      using assms(2) ib by (simp add: advances_def)
    from 1 2 show "procs c ! i = procs a ! i \<or> procs c ! i = (procs a ! i)\<lparr>alive := False\<rparr>"
      by auto
  qed
  moreover have "prefix (trace a) (trace c)"
    using assms by (auto simp: advances_def intro: prefix_order.trans)
  ultimately show ?thesis
    using assms by (simp add: advances_def)
qed

lemma advances_emit:
  "\<not> is_accept_line a \<Longrightarrow> advances w (emit a w)"
  by (simp add: advances_def emit_def restarts_triggered_def)

lemma advances_sleep: "0 \<le> d \<Longrightarrow> advances w (sleep d w)"
  by (simp add: advances_def sleep_def restarts_triggered_def)

lemma advances_wait: "0 \<le> d \<Longrightarrow> advances w (wait p d w)"
  by (simp add: advances_def wait_def restarts_triggered_def)

lemma advances_set_dead: "advances w (set_dead p w)"
proof -
  have "(procs w)[p := (procs w ! p)\<lparr>alive := False\<rparr>] ! i = procs w ! i
      \<or> (procs w)[p := (procs w ! p)\<lparr>alive := False\<rparr>] ! i = (procs w ! i)\<lparr>alive := False\<rparr>"
    if "i < length (procs w)" for i
    using that by (cases "i = p") simp_all
  then show ?thesis
    by (simp add: advances_def set_dead_def)
qed

lemma advances_kill_conns: "advances w (snd (kill_conns prt p cs w))"
proof (induction cs arbitrary: w)
  case Nil
  show ?case by (simp add: advances_refl)
next
  case (Cons c cs)
  show ?case
  proof (cases "c = prt")
    case False
    then show ?thesis using Cons.IH by simp
  next
    case True
    let ?w1 = "emit (Print (Port_kill prt p)) w"
    have a1: "advances w ?w1" by (simp add: advances_emit)
    show ?thesis
    proof (cases "on_pskill (procs ?w1 ! p)")
      case (Some e)
      then show ?thesis using True a1 by (simp add: Let_def)
    next
      case None
      let ?w2 = "sleep 1000 (emit (Ps_kill p) (set_dead p ?w1))"
      have "advances ?w1 (set_dead p ?w1)" by (rule advances_set_dead)
      moreover have "advances (set_dead p ?w1) (emit (Ps_kill p) (set_dead p ?w1))"
        by (simp add: advances_emit)
      moreover have "advances (emit (Ps_kill p) (set_dead p ?w1)) ?w2"
        by (simp add: advances_sleep)
      ultimately have "advances ?w1 ?w2"
        by (blast intro: advances_trans)
      with a1 have "advances w ?w2" by (rule advances_trans)
      then have "advances w (snd (kill_conns prt p cs ?w2))"
        using Cons.IH by (blast intro: advances_trans)
      then show ?thesis using True None by (simp add: Let_def)
    qed
  qed
qed

lemma advances_scan_procs: "advances w (snd (scan_procs prt ps w))"
proof (induction ps arbitrary: w)
  case Nil
  show ?case by (simp add: advances_refl)
next
  case (Cons p ps)
  obtain x w' where k: "kill_conns prt p (conn_ports (procs w ! p)) w = (x, w')"
    by (cases "kill_conns prt p (conn_ports (procs w ! p)) w") auto
  have a: "advances w w'"
    using advances_kill_conns [of w prt p "conn_ports (procs w ! p)"] k by simp
  have b: "advances w (snd (scan_procs prt ps w'))"
    using a Cons.IH by (blast intro: advances_trans)
  show ?case using k a b by (cases x) simp_all
qed

lemma advances_kill_process_on_port: "advances w (kill_process_on_port prt w)"
proof -
  obtain x w' where r: "scan_procs prt (filter (is_alive w) [0..<length (procs w)]) w = (x, w')"
    by (cases "scan_procs prt (filter (is_alive w) [0..<length (procs w)]) w") auto
  have a: "advances w w'"
    using advances_scan_procs [of w prt "filter (is_alive w) [0..<length (procs w)]"] r by simp
  have "advances w' (emit (Print (Port_error prt)) w')"
    by (simp add: advances_emit)
  with a have b: "advances w (emit (Print (Port_error prt)) w')"
    by (rule advances_trans)
  show ?thesis
    using a b r by (cases x) (simp_all add: kill_process_on_port_def)
qed

lemma advances_forced:
  "advances u (snd (let w2 = emit (Kill p) (emit (Print Force_killing) (wait p 5000 u)) in
                    case on_kill (procs w2 ! p) of
                      Kill_raises e \<Rightarrow> (Some e, w2)
                    | Kill_exits d \<Rightarrow> (None, wait p (int d) (set_dead p w2))))"
proof -
  let ?w2 = "emit (Kill p) (emit (Print Force_killing) (wait p 5000 u))"
  have "advances u (wait p 5000 u)" by (simp add: advances_wait)
  moreover have "advances (wait p 5000 u) (emit (Print Force_killing) (wait p 5000 u))"
    by (simp add: advances_emit)
  moreover have "advances (emit (Print Force_killing) (wait p 5000 u)) ?w2"
    by (simp add: advances_emit)
  ultimately have a: "advances u ?w2" by (blast intro: advances_trans)
  have b: "advances u (wait p (int d) (set_dead p ?w2))" for d
  proof -
    have "advances ?w2 (set_dead p ?w2)" by (rule advances_set_dead)
    moreover have "advances (set_dead p ?w2) (wait p (int d) (set_dead p ?w2))"
      by (simp add: advances_wait)
    ultimately show ?thesis using a by (blast intro: advances_trans)
  qed
  show ?thesis
    using a b by (simp add: Let_def split: kill_resp.split)
qed

lemma advances_kill_current_process: "advances w (snd (kill_current_process m w))"
proof (cases "process m")
  case None
  then show ?thesis by (simp add: kill_current_process_def advances_refl)
next
  case (Some p)
  show ?thesis
  proof (cases "is_alive w p")
    case False
    then show ?thesis using Some by (simp add: kill_current_process_def advances_refl)
  next
    case True
    let ?w1 = "emit (Terminate p) (emit (Print Stopping_current) w)"
    have "advances w (emit (Print Stopping_current) w)" by (simp add: advances_emit)
    moreover have "advances (emit (Print Stopping_current) w) ?w1" by (simp add: advances_emit)
    ultimately have a: "advances w ?w1" by (blast intro: advances_trans)
    have f: "advances w (snd (let w2 = emit (Kill p) (emit (Print Force_killing) (wait p 5000 ?w1)) in
                    case on_kill (procs w2 ! p) of
                      Kill_raises e \<Rightarrow> (Some e, w2)
                    | Kill_exits d \<Rightarrow> (None, wait p (int d) (set_dead p w2))))"
      using a advances_forced [of ?w1 p] by (blast intro: advances_trans)
    have r: "advances w (emit (Print Stop_error) ?w1)"
      using a advances_emit [of "Print Stop_error" ?w1] by (auto intro: advances_trans)
    have g: "advances w (wait p (int d) (set_dead p ?w1))" for d
    proof -
      have "advances ?w1 (set_dead p ?w1)" by (rule advances_set_dead)
      moreover have "advances (set_dead p ?w1) (wait p (int d) (set_dead p ?w1))"
        by (simp add: advances_wait)
      ultimately show ?thesis using a by (blast intro: advances_trans)
    qed
    show ?thesis
      using Some True f r g
      by (simp add: kill_current_process_def Let_def split: term_resp.split)
  qed
qed

lemma start_server_raises:
  assumes "popen_script (launch_world m w) (popen_calls (launch_world m w)) = Popen_raises e"
  shows "start_server m w =
           (False, m, emit (Print Start_error)
              ((launch_world m w)\<lparr>popen_calls := Suc (popen_calls (launch_world m w))\<rparr>))"
  using assms by (simp add: start_server_def launch_world_def Let_def)

lemma start_server_exits:
  assumes "popen_script (launch_world m w) (popen_calls (launch_world m w)) = Spawn True info"
  shows "start_server m w =
           (False, m\<lparr>process := Some (length (procs (launch_world m w)))\<rparr>,
            emit (Print Start_failed)
              (set_dead (length (procs (launch_world m w))) (spawned info (launch_world m w))))"
  using assms
  by (simp add: start_server_def launch_world_def spawned_def Let_def is_alive_def
      emit_def sleep_def set_dead_def)

lemma start_server_stays:
  assumes "popen_script (launch_world m w) (popen_calls (launch_world m w)) = Spawn False info"
  shows "start_server m w =
           (True, m\<lparr>process := Some (length (procs (launch_world m w))), retry_count := 0\<rparr>,
            emit (Print Started_ok) (spawned info (launch_world m w)))"
  using assms
  by (simp add: start_server_def launch_world_def spawned_def Let_def is_alive_def
      emit_def sleep_def set_dead_def)

lemma advances_launch_world: "advances w (launch_world m w)"
  unfolding launch_world_def
  using advances_kill_process_on_port [of w "port m"]
    advances_emit [of "Print (Starting (port m))" "kill_process_on_port (port m) w"]
  by (auto intro: advances_trans)

lemma advances_spawned: "advances u (spawned info u)"
  by (simp add: advances_def spawned_def sleep_def emit_def nth_append restarts_triggered_def)

lemma advances_start_server: "advances w (snd (snd (start_server m w)))"
proof -
  let ?u = "launch_world m w"
  have u: "advances w ?u" by (rule advances_launch_world)
  show ?thesis
  proof (cases "popen_script ?u (popen_calls ?u)")
    case (Popen_raises e)
    have "advances ?u (?u\<lparr>popen_calls := Suc (popen_calls ?u)\<rparr>)"
      by (simp add: advances_def)
    moreover have "advances (?u\<lparr>popen_calls := Suc (popen_calls ?u)\<rparr>)
        (emit (Print Start_error) (?u\<lparr>popen_calls := Suc (popen_calls ?u)\<rparr>))"
      by (simp add: advances_emit)
    ultimately have "advances w (emit (Print Start_error) (?u\<lparr>popen_calls := Suc (popen_calls ?u)\<rparr>))"
      using u by (blast intro: advances_trans)
    then show ?thesis by (simp add: start_server_raises [OF Popen_raises])
  next
    case (Spawn exits info)
    have s: "advances w (spawned info ?u)"
      using u advances_spawned [of ?u info] by (rule advances_trans)
    show ?thesis
    proof (cases exits)
      case True
      have "advances (spawned info ?u) (set_dead (length (procs ?u)) (spawned info ?u))"
        by (rule advances_set_dead)
      moreover have "advances (set_dead (length (procs ?u)) (spawned info ?u))
          (emit (Print Start_failed) (set_dead (length (procs ?u)) (spawned info ?u)))"
        by (simp add: advances_emit)
      ultimately have "advances w
          (emit (Print Start_failed) (set_dead (length (procs ?u)) (spawned info ?u)))"
        using s by (blast intro: advances_trans)
      then show ?thesis using Spawn True by (simp add: start_server_exits)
    next
      case False
      have "advances (spawned info ?u) (emit (Print Started_ok) (spawned info ?u))"
        by (simp add: advances_emit)
      with s have "advances w (emit (Print Started_ok) (spawned info ?u))"
        by (rule advances_trans)
      then show ?thesis using Spawn False by (simp add: start_server_stays)
    qed
  qed
qed

lemma advances_restart:
  "advances w (snd (snd (restart_server m w)))"
  "advances w (snd (snd (handle_restart_failure m w)))"
proof (induction m w and m w rule: restart_server_handle_restart_failure.induct)
  case (1 m w)
  let ?w0 = "emit (Print Restarting) w"
  obtain x w1 where k: "kill_current_process m ?w0 = (x, w1)"
    by (cases "kill_current_process m ?w0") auto
  have a1: "advances w w1"
    using advances_emit [of "Print Restarting" w] advances_kill_current_process [of ?w0 m] k
    by (auto intro: advances_trans)
  show ?case
  proof (cases x)
    case (Some e)
    then show ?thesis using k a1 by (simp add: restart_server.simps)
  next
    case None
    obtain ok m' w2 where s: "start_server m (sleep 2000 w1) = (ok, m', w2)"
      by (cases "start_server m (sleep 2000 w1)") auto
    have a2: "advances w w2"
      using a1 advances_sleep [of 2000 w1] advances_start_server [of "sleep 2000 w1" m] s
      by (auto intro: advances_trans)
    show ?thesis
    proof (cases ok)
      case True
      have "advances w (emit (Print Restarted_ok) w2)"
        using a2 advances_emit [of "Print Restarted_ok" w2] by (auto intro: advances_trans)
      then show ?thesis using k None s True by (simp add: restart_server.simps)
    next
      case False
      have ih: "advances (emit (Print Restart_failed) w2)
                  (snd (snd (handle_restart_failure m' (emit (Print Restart_failed) w2))))"
        using "1.IH" [OF k [symmetric] None s [symmetric] refl False] .
      have "advances w (emit (Print Restart_failed) w2)"
        using a2 advances_emit [of "Print Restart_failed" w2] by (auto intro: advances_trans)
      with ih have "advances w (snd (snd (handle_restart_failure m' (emit (Print Restart_failed) w2))))"
        by (blast intro: advances_trans)
      then show ?thesis using k None s False by (simp add: restart_server.simps)
    qed
  qed
next
  case (2 m w)
  let ?m1 = "m\<lparr>retry_count := retry_count m + 1\<rparr>"
  show ?case
  proof (cases "retry_count ?m1 < max_retries ?m1")
    case True
    let ?w1 = "sleep 3000 (emit (Print (Retry (retry_count ?m1) (max_retries ?m1))) w)"
    have "advances w ?w1"
      using advances_emit [of "Print (Retry (retry_count ?m1) (max_retries ?m1))" w]
        advances_sleep [of 3000 "emit (Print (Retry (retry_count ?m1) (max_retries ?m1))) w"]
      by (auto intro: advances_trans)
    moreover have "advances ?w1 (snd (snd (restart_server ?m1 ?w1)))"
      using "2.IH" [OF refl True] .
    ultimately have "advances w (snd (snd (restart_server ?m1 ?w1)))"
      by (rule advances_trans)
    then show ?thesis using True by (simp add: handle_restart_failure.simps Let_def)
  next
    case False
    then show ?thesis
      by (simp add: handle_restart_failure.simps Let_def advances_emit)
  qed
qed

subsection \<open>What the handler does with an accepted event\<close>

lemma accepts_iff:
  "accepts ev h now \<longleftrightarrow>
     \<not> is_directory ev
     \<and> (endswith (src_path ev) ''.py'' \<or> endswith (src_path ev) ''.css'')
     \<and> \<not> (contains ''__pycache__'' (src_path ev) \<or> endswith (src_path ev) ''.pyc'')
     \<and> \<not> now - last_reload h < reload_delay h
     \<and> \<not> pending_restart h"
  by (simp add: accepts_def code_order_def)


lemma accepts_eligible:
  "accepts ev h now \<longleftrightarrow>
     eligible ev \<and> \<not> now - last_reload h < reload_delay h \<and> \<not> pending_restart h"
  by (auto simp: accepts_iff eligible_def)


lemma handle_file_change_checks:
  "handle_file_change ev s = apply_checks code_order ev s"
  by (cases s) (simp add: handle_file_change_def apply_checks_def code_order_def
      accept_event_def Let_def split: prod.splits option.splits)

lemma kill_current_process_raises_clock:
  assumes "kill_current_process m w = (Some e, w')"
  shows "clock w' = clock w + 5000"
  using assms
  by (auto simp: kill_current_process_def Let_def emit_def wait_def set_dead_def
      split: option.splits if_splits term_resp.splits kill_resp.splits)

lemma advances_clock: "advances w w' \<Longrightarrow> clock w \<le> clock w'"
  by (simp add: advances_def)

lemma advances_triggered:
  "advances w w' \<Longrightarrow> restarts_triggered (trace w') = restarts_triggered (trace w)"
  by (simp add: advances_def)

lemma restart_server_takes_time: "clock w + 2000 \<le> clock (snd (snd (restart_server m w)))"
proof -
  let ?w0 = "emit (Print Restarting) w"
  obtain x w1 where k: "kill_current_process m ?w0 = (x, w1)"
    by (cases "kill_current_process m ?w0") auto
  have c0: "clock ?w0 = clock w" by (simp add: emit_def)
  show ?thesis
  proof (cases x)
    case (Some e)
    then have "clock w1 = clock w + 5000"
      using kill_current_process_raises_clock [of m ?w0 e w1] k c0 by simp
    then show ?thesis using k Some by (simp add: restart_server.simps)
  next
    case None
    have c1: "clock w \<le> clock w1"
      using advances_clock [OF advances_kill_current_process [of ?w0 m]] k c0 by simp
    obtain ok m' w2 where s: "start_server m (sleep 2000 w1) = (ok, m', w2)"
      by (cases "start_server m (sleep 2000 w1)") auto
    have c2: "clock w + 2000 \<le> clock w2"
      using advances_clock [OF advances_start_server [of "sleep 2000 w1" m]] s c1
      by (simp add: sleep_def)
    show ?thesis
    proof (cases ok)
      case True
      then show ?thesis using k None s c2 by (simp add: restart_server.simps emit_def)
    next
      case False
      have "clock (emit (Print Restart_failed) w2)
             \<le> clock (snd (snd (handle_restart_failure m' (emit (Print Restart_failed) w2))))"
        by (rule advances_clock [OF advances_restart(2)])
      then show ?thesis using k None s c2 False by (simp add: restart_server.simps emit_def)
    qed
  qed
qed

lemma handle_file_change_accepted:
  assumes "accepts ev h (clock w)"
  shows "handle_file_change ev (h, m, w) = accept_event ev (h, m, w)"
  using assms by (simp add: handle_file_change_checks apply_checks_def accepts_def)

lemma accept_event_facts:
  assumes "accept_event ev (h, m, w) = (x, h', m', w')"
  shows "last_reload h' = clock w" and "pending_restart h'" and "reload_delay h' = reload_delay h"
    and "clock w + 2000 \<le> clock w'"
    and "restarts_triggered (trace w') = Suc (restarts_triggered (trace w))"
    and "x = None \<Longrightarrow> reset_due h' = Some (clock w' + 1000)"
proof -
  let ?w1 = "emit (Print Restarting)
               (emit (Print (File_changed (endswith (src_path ev) ''.css'')
                  (path_name (src_path ev)))) w)"
  have r: "x = fst (restart_server m ?w1)" "w' = snd (snd (restart_server m ?w1))"
    and h': "h' = (if x = None then h\<lparr>last_reload := clock w, pending_restart := True,
                      reset_due := Some (clock w' + 1000)\<rparr>
                   else h\<lparr>last_reload := clock w, pending_restart := True\<rparr>)"
    using assms by (auto simp: accept_event_def Let_def split: if_splits)
  show "last_reload h' = clock w" "pending_restart h'" "reload_delay h' = reload_delay h"
    using h' by simp_all
  show "x = None \<Longrightarrow> reset_due h' = Some (clock w' + 1000)" using h' by simp
  have "clock ?w1 + 2000 \<le> clock w'"
    unfolding r by (rule restart_server_takes_time)
  then show "clock w + 2000 \<le> clock w'" by (simp add: emit_def)
  have "restarts_triggered (trace w') = restarts_triggered (trace ?w1)"
    unfolding r by (rule advances_triggered [OF advances_restart(1)])
  then show "restarts_triggered (trace w') = Suc (restarts_triggered (trace w))"
    by (simp add: emit_def restarts_triggered_def)
qed


subsection \<open>Evaluation at the concrete inputs\<close>

lemma py_event_accepted: "accepts py_event init_handler (clock late_world)"
  by (simp add: accepts_iff py_event_path py_event_clean init_handler_def late_world_def)


lemma py_event_eligible: "eligible py_event"
  by (simp add: eligible_def py_event_path py_event_clean)

lemma late_restart:
  "restart_server init_manager
     (emit (Print Restarting) (emit (Print (File_changed False ''ui_components.py'')) late_world))
   = (None, init_manager\<lparr>process := Some 0\<rparr>, restarted_world)"
  by (simp add: restart_server.simps kill_current_process_def init_manager_def late_world_def
      start_server_def kill_process_on_port_def emit_def sleep_def is_alive_def healthy_def
      Let_def restarted_world_def)

lemma late_handle:
  "handle_file_change py_event (init_handler, init_manager, late_world)
   = (None, restarted_handler, init_manager\<lparr>process := Some 0\<rparr>, restarted_world)"
proof -
  have "accept_event py_event (init_handler, init_manager, late_world)
      = (None, restarted_handler, init_manager\<lparr>process := Some 0\<rparr>, restarted_world)"
    by (simp add: accept_event_def py_event_path late_restart Let_def)
       (simp add: init_handler_def restarted_handler_def late_world_def restarted_world_def)
  then show ?thesis
    by (simp add: handle_file_change_accepted [OF py_event_accepted])
qed



subsection \<open>Events delivered in sequence\<close>










subsection \<open>Stopping the managed process\<close>

lemma kill_current_process_idle:
  "\<not> managed_alive m w \<Longrightarrow> kill_current_process m w = (None, w)"
  by (simp add: kill_current_process_def managed_alive_def split: option.splits)

lemma managed_alive_emit [simp]: "managed_alive m (emit a w) = managed_alive m w"
  by (simp add: managed_alive_def emit_def is_alive_def split: option.splits)

lemma responsive_emit [simp]: "responsive m (emit a w) = responsive m w"
  by (simp add: responsive_def emit_def is_alive_def split: option.splits)



lemma kill_current_process_kill_raises:
  assumes "process m = Some p" and "is_alive w p"
    and "on_term (procs w ! p) = Term_hangs" and "on_kill (procs w ! p) = Kill_raises e"
  shows "kill_current_process m w = (Some e, forced_kill_raised p w)"
  using assms
  by (simp add: kill_current_process_def forced_kill_raised_def Let_def emit_def wait_def)

lemma kill_raises_emit:
  assumes "is_alive w p"
    and "on_term (procs w ! p) = Term_hangs" and "on_kill (procs w ! p) = Kill_raises e"
  shows "is_alive (emit a w) p"
    and "on_term (procs (emit a w) ! p) = Term_hangs"
    and "on_kill (procs (emit a w) ! p) = Kill_raises e"
  using assms by (simp_all add: emit_def is_alive_def)

lemma is_alive_forced_kill_raised: "is_alive (forced_kill_raised p w) q = is_alive w q"
  by (simp add: forced_kill_raised_def is_alive_def emit_def wait_def)

lemma stop_server_kill_raises:
  assumes "process m = Some p" and "is_alive w p"
    and "on_term (procs w ! p) = Term_hangs" and "on_kill (procs w ! p) = Kill_raises e"
  shows "stop_server m w = (Some e, forced_kill_raised p (emit (Print Stopping) w))"
  using kill_current_process_kill_raises [OF assms(1) kill_raises_emit [OF assms(2-4)]]
  by (simp add: stop_server_def)

lemma restart_server_kill_raises:
  assumes "process m = Some p" and "is_alive w p"
    and "on_term (procs w ! p) = Term_hangs" and "on_kill (procs w ! p) = Kill_raises e"
  shows "restart_server m w = (Some e, m, forced_kill_raised p (emit (Print Restarting) w))"
  using kill_current_process_kill_raises [OF assms(1) kill_raises_emit [OF assms(2-4)]]
  by (simp add: restart_server.simps)

lemma handle_file_change_kill_raises:
  assumes "accepts ev h (clock w)" and "process m = Some p" and "is_alive w p"
    and "on_term (procs w ! p) = Term_hangs" and "on_kill (procs w ! p) = Kill_raises e"
  shows "fst (handle_file_change ev (h, m, w)) = Some e"
proof -
  let ?w1 = "emit (Print (File_changed (endswith (src_path ev) ''.css'')
                     (path_name (src_path ev)))) w"
  note a = kill_raises_emit [OF assms(3-5), of "Print (File_changed (endswith (src_path ev) ''.css'')
                     (path_name (src_path ev)))"]
  note b = kill_raises_emit [OF a, of "Print Restarting"]
  show ?thesis
    using restart_server_kill_raises [OF assms(2) b]
    by (simp add: handle_file_change_accepted [OF assms(1)] accept_event_def Let_def)
qed


subsection \<open>The handler on the runs of the program\<close>

lemma settled_init: "settled init_handler w"
  by (simp add: settled_def init_handler_def)

lemma settled_spec_order:
  assumes "settled h w"
  shows "apply_checks spec_order ev (h, m, w) = apply_checks code_order ev (h, m, w)"
  using assms by (auto simp: apply_checks_def spec_order_def code_order_def settled_def)

lemma settled_fire_timers: "settled h w \<Longrightarrow> settled (fire_timers h w) w"
  by (simp add: settled_def fire_timers_def split: option.splits)

lemma settled_later: "settled h w \<Longrightarrow> clock w \<le> c \<Longrightarrow> settled h (w\<lparr>clock := c\<rparr>)"
  by (auto simp: settled_def)

lemma settled_handle_file_change:
  assumes "settled h w" and "handle_file_change ev (h, m, w) = (x, h', m', w')"
  shows "settled h' w'"
proof (cases "accepts ev h (clock w)")
  case True
  then have "accept_event ev (h, m, w) = (x, h', m', w')"
    using assms(2) by (simp add: handle_file_change_accepted)
  from accept_event_facts(1,3,4) [OF this] assms(1) show ?thesis
    by (simp add: settled_def)
next
  case False
  then have "h' = h \<and> clock w' = clock w"
    using assms(2)
    by (auto simp: handle_file_change_def accepts_iff Let_def emit_def split: if_splits)
  then show ?thesis using assms(1) by (simp add: settled_def)
qed

lemma dispatch_by_spec_order:
  assumes "settled h w"
  shows "dispatch_by spec_order evs (h, m, w) = dispatch evs (h, m, w)"
  using assms
proof (induction evs arbitrary: h m w)
  case Nil
  show ?case by simp
next
  case (Cons a evs)
  obtain t ev where a: "a = (t, ev)" by (cases a) auto
  let ?w1 = "w\<lparr>clock := max (clock w) t\<rparr>"
  let ?h1 = "fire_timers h ?w1"
  have s1: "settled ?h1 ?w1"
    using Cons.prems by (intro settled_fire_timers settled_later) simp_all
  obtain x h' m' w' where r: "handle_file_change ev (?h1, m, ?w1) = (x, h', m', w')"
    by (cases "handle_file_change ev (?h1, m, ?w1)") auto
  have e: "apply_checks spec_order ev (?h1, m, ?w1) = (x, h', m', w')"
    using settled_spec_order [OF s1] r by (simp add: handle_file_change_checks)
  have s': "settled h' w'" using settled_handle_file_change [OF s1 r] .
  show ?case
  proof (cases x)
    case None
    then show ?thesis using a r e Cons.IH [OF s'] by (simp add: Let_def)
  next
    case (Some e')
    then show ?thesis using a r e by (simp add: Let_def)
  qed
qed













subsection \<open>The retry loop\<close>

lemma quiet_refl: "quiet w w"
  by (simp add: quiet_def)

lemma quiet_trans: "quiet a b \<Longrightarrow> quiet b c \<Longrightarrow> quiet a c"
  by (simp add: quiet_def)

lemma quiet_emit: "\<not> is_retry_line a \<Longrightarrow> quiet w (emit a w)"
  by (simp add: quiet_def emit_def retry_lines_def)

lemma quiet_sleep: "quiet w (sleep d w)"
  by (simp add: quiet_def sleep_def retry_lines_def)

lemma quiet_wait: "quiet w (wait p d w)"
  by (simp add: quiet_def wait_def retry_lines_def)

lemma quiet_set_dead: "quiet w (set_dead p w)"
  by (simp add: quiet_def set_dead_def)

lemma quiet_kill_conns: "quiet w (snd (kill_conns prt p cs w))"
proof (induction cs arbitrary: w)
  case Nil
  show ?case by (simp add: quiet_refl)
next
  case (Cons c cs)
  show ?case
  proof (cases "c = prt")
    case False
    then show ?thesis using Cons.IH by simp
  next
    case True
    let ?w1 = "emit (Print (Port_kill prt p)) w"
    have a1: "quiet w ?w1" by (simp add: quiet_emit)
    show ?thesis
    proof (cases "on_pskill (procs ?w1 ! p)")
      case (Some e)
      then show ?thesis using True a1 by (simp add: Let_def)
    next
      case None
      let ?w2 = "sleep 1000 (emit (Ps_kill p) (set_dead p ?w1))"
      have "quiet ?w1 (set_dead p ?w1)" by (rule quiet_set_dead)
      moreover have "quiet (set_dead p ?w1) (emit (Ps_kill p) (set_dead p ?w1))"
        by (simp add: quiet_emit)
      moreover have "quiet (emit (Ps_kill p) (set_dead p ?w1)) ?w2"
        by (rule quiet_sleep)
      ultimately have "quiet w ?w2"
        using a1 by (blast intro: quiet_trans)
      then have "quiet w (snd (kill_conns prt p cs ?w2))"
        using Cons.IH by (blast intro: quiet_trans)
      then show ?thesis using True None by (simp add: Let_def)
    qed
  qed
qed

lemma quiet_scan_procs: "quiet w (snd (scan_procs prt ps w))"
proof (induction ps arbitrary: w)
  case Nil
  show ?case by (simp add: quiet_refl)
next
  case (Cons p ps)
  obtain x w' where k: "kill_conns prt p (conn_ports (procs w ! p)) w = (x, w')"
    by (cases "kill_conns prt p (conn_ports (procs w ! p)) w") auto
  have a: "quiet w w'"
    using quiet_kill_conns [of w prt p "conn_ports (procs w ! p)"] k by simp
  have b: "quiet w (snd (scan_procs prt ps w'))"
    using a Cons.IH by (blast intro: quiet_trans)
  show ?case using k a b by (cases x) simp_all
qed

lemma quiet_kill_process_on_port: "quiet w (kill_process_on_port prt w)"
proof -
  obtain x w' where r: "scan_procs prt (filter (is_alive w) [0..<length (procs w)]) w = (x, w')"
    by (cases "scan_procs prt (filter (is_alive w) [0..<length (procs w)]) w") auto
  have a: "quiet w w'"
    using quiet_scan_procs [of w prt "filter (is_alive w) [0..<length (procs w)]"] r by simp
  have "quiet w' (emit (Print (Port_error prt)) w')"
    by (simp add: quiet_emit)
  with a have b: "quiet w (emit (Print (Port_error prt)) w')"
    by (rule quiet_trans)
  show ?thesis
    using a b r by (cases x) (simp_all add: kill_process_on_port_def)
qed

lemma quiet_launch_world: "quiet w (launch_world m w)"
  unfolding launch_world_def
  using quiet_kill_process_on_port [of w "port m"]
    quiet_emit [of "Print (Starting (port m))" "kill_process_on_port (port m) w"]
  by (auto intro: quiet_trans)

lemma quiet_kill_current_process: "quiet w (snd (kill_current_process m w))"
  by (auto simp: kill_current_process_def quiet_def Let_def emit_def wait_def set_dead_def
      retry_lines_def split: option.splits term_resp.splits kill_resp.splits)

lemma calm_later:
  assumes "advances w w'" and "length (procs w') = length (procs w)" and "calm m w"
  shows "calm m w'"
proof (cases "process m")
  case None
  then show ?thesis by (simp add: calm_def)
next
  case (Some p)
  show ?thesis
  proof (cases "is_alive w' p")
    case False
    then show ?thesis using Some by (simp add: calm_def)
  next
    case True
    then have p: "p < length (procs w)" using assms(2) by (simp add: is_alive_def)
    have "procs w' ! p = procs w ! p \<or> procs w' ! p = (procs w ! p)\<lparr>alive := False\<rparr>"
      using assms(1) p by (simp add: advances_def)
    then have e: "procs w' ! p = procs w ! p" using True by (auto simp: is_alive_def)
    then have "is_alive w p" using True p by (simp add: is_alive_def)
    then show ?thesis using assms(3) Some e by (simp add: calm_def)
  qed
qed

lemma calm_emit [simp]: "calm m (emit a w) = calm m w"
  by (simp add: calm_def emit_def is_alive_def split: option.splits)

lemma calm_sleep [simp]: "calm m (sleep d w) = calm m w"
  by (simp add: calm_def sleep_def is_alive_def split: option.splits)

lemma calm_retry_count [simp]: "calm (m\<lparr>retry_count := n\<rparr>) w = calm m w"
  by (simp add: calm_def)

lemma stoppable_emit [simp]: "stoppable m (emit a w) = stoppable m w"
  by (auto simp: stoppable_def kill_current_process_def Let_def emit_def wait_def is_alive_def
      split: option.splits term_resp.splits kill_resp.splits)

lemma kill_none_calm:
  assumes "kill_current_process m w = (None, w1)"
  shows "calm m w1"
  using assms
  by (auto simp: kill_current_process_def calm_def refuses_def Let_def is_alive_def emit_def
      wait_def set_dead_def split: option.splits term_resp.splits kill_resp.splits if_splits)

lemma procs_emit [simp]: "procs (emit a w) = procs w"
  by (simp add: emit_def)

lemma calm_stoppable: "calm m w \<Longrightarrow> stoppable m w"
proof (cases "process m")
  case None
  then show ?thesis by (simp add: stoppable_def kill_current_process_def)
next
  case (Some p)
  assume c: "calm m w"
  show ?thesis
  proof (cases "is_alive w p")
    case False
    then show ?thesis using Some by (simp add: stoppable_def kill_current_process_def)
  next
    case True
    then have "refuses (procs w ! p)" using c Some by (simp add: calm_def)
    then obtain e where "on_term (procs w ! p) = Term_raises e"
      by (auto simp: refuses_def split: term_resp.splits)
    then show ?thesis
      using Some True by (simp add: stoppable_def kill_current_process_def Let_def)
  qed
qed

lemma start_server_false_calm:
  assumes c: "calm m w" and s: "start_server m w = (False, m', w2)"
  shows "calm m' w2" and "max_retries m' = max_retries m" and "retry_count m' = retry_count m"
proof -
  let ?u = "launch_world m w"
  have "length (procs ?u) = length (procs w)"
    using quiet_launch_world [of w m] by (simp add: quiet_def)
  with advances_launch_world [of w m] have cu: "calm m ?u"
    using c by (rule calm_later)
  have all: "calm m' w2 \<and> max_retries m' = max_retries m \<and> retry_count m' = retry_count m"
  proof (cases "popen_script ?u (popen_calls ?u)")
    case (Popen_raises e)
    show ?thesis
      using s cu unfolding start_server_raises [OF Popen_raises]
      by (auto simp: calm_def is_alive_def emit_def split: option.splits)
  next
    case (Spawn exits info)
    show ?thesis
    proof (cases exits)
      case True
      then have sp: "popen_script ?u (popen_calls ?u) = Spawn True info" using Spawn by simp
      show ?thesis
        using s unfolding start_server_exits [OF sp]
        by (auto simp: calm_def is_alive_def emit_def spawned_def sleep_def set_dead_def)
    next
      case False
      then have sp: "popen_script ?u (popen_calls ?u) = Spawn False info" using Spawn by simp
      show ?thesis using s unfolding start_server_stays [OF sp] by simp
    qed
  qed
  then show "calm m' w2" and "max_retries m' = max_retries m"
    and "retry_count m' = retry_count m"
    by blast+
qed

lemma start_server_true:
  assumes "start_server m w = (True, m', w2)"
  shows "retry_count m' = 0" and "max_retries m' = max_retries m"
  using assms
  by (auto simp: start_server_def Let_def split: launch.splits if_splits)

lemma start_server_fails:
  assumes f: "launch_fails (popen_script w (popen_calls w))"
    and s: "start_server m w = (ok, m', w2)"
  shows "\<not> ok" and "popen_calls w2 = Suc (popen_calls w)" and "popen_script w2 = popen_script w"
    and "retry_lines (trace w2) = retry_lines (trace w)"
proof -
  let ?u = "launch_world m w"
  have q: "quiet w ?u" by (rule quiet_launch_world)
  have a: "advances w ?u" by (rule advances_launch_world)
  have c: "popen_calls ?u = popen_calls w" and r: "retry_lines (trace ?u) = retry_lines (trace w)"
    using q by (simp_all add: quiet_def)
  have sc: "popen_script ?u = popen_script w" using a by (simp add: advances_def)
  have all: "\<not> ok \<and> popen_calls w2 = Suc (popen_calls w) \<and> popen_script w2 = popen_script w
      \<and> retry_lines (trace w2) = retry_lines (trace w)"
  proof (cases "popen_script ?u (popen_calls ?u)")
    case (Popen_raises e)
    show ?thesis
      using s c r sc unfolding start_server_raises [OF Popen_raises]
      by (auto simp: emit_def retry_lines_def)
  next
    case (Spawn exits info)
    then have "exits" using f c sc by (simp add: launch_fails_def)
    then have sp: "popen_script ?u (popen_calls ?u) = Spawn True info" using Spawn by simp
    show ?thesis
      using s c r sc unfolding start_server_exits [OF sp]
      by (auto simp: emit_def retry_lines_def spawned_def sleep_def set_dead_def)
  qed
  then show "\<not> ok" and "popen_calls w2 = Suc (popen_calls w)"
    and "popen_script w2 = popen_script w"
    and "retry_lines (trace w2) = retry_lines (trace w)"
    by blast+
qed

lemma fails_fromD:
  "fails_from w k \<Longrightarrow> popen_calls w \<le> n \<Longrightarrow> n < popen_calls w + k
     \<Longrightarrow> launch_fails (popen_script w n)"
  by (simp add: fails_from_def list_all_iff)

lemma fails_from_shift:
  assumes "fails_from w k" and "popen_script w' = popen_script w"
    and "popen_calls w \<le> popen_calls w'" and "popen_calls w' + k' \<le> popen_calls w + k"
  shows "fails_from w' k'"
  using assms by (auto simp: fails_from_def list_all_iff)

lemma idle_later:
  assumes "advances w w'" and "length (procs w') = length (procs w)"
    and "\<not> managed_alive m w"
  shows "\<not> managed_alive m w'"
proof (cases "process m")
  case None
  then show ?thesis by (simp add: managed_alive_def)
next
  case (Some p)
  show ?thesis
  proof
    assume "managed_alive m w'"
    then have l: "is_alive w' p" using Some by (simp add: managed_alive_def)
    then have p: "p < length (procs w)" using assms(2) by (simp add: is_alive_def)
    have "procs w' ! p = procs w ! p \<or> procs w' ! p = (procs w ! p)\<lparr>alive := False\<rparr>"
      using assms(1) p by (simp add: advances_def)
    then have "procs w' ! p = procs w ! p" using l by (auto simp: is_alive_def)
    then have "is_alive w p" using l p by (simp add: is_alive_def)
    then show False using assms(3) Some by (simp add: managed_alive_def)
  qed
qed

lemma managed_alive_sleep [simp]: "managed_alive m (sleep d w) = managed_alive m w"
  by (simp add: managed_alive_def sleep_def is_alive_def split: option.splits)

lemma managed_alive_retry_count [simp]:
  "managed_alive (m\<lparr>retry_count := n\<rparr>) w = managed_alive m w"
  by (simp add: managed_alive_def)

lemma start_server_false_idle:
  assumes c: "\<not> managed_alive m w" and s: "start_server m w = (False, m', w2)"
  shows "\<not> managed_alive m' w2"
proof -
  let ?u = "launch_world m w"
  have "length (procs ?u) = length (procs w)"
    using quiet_launch_world [of w m] by (simp add: quiet_def)
  with advances_launch_world [of w m] have cu: "\<not> managed_alive m ?u"
    using c by (rule idle_later)
  show ?thesis
  proof (cases "popen_script ?u (popen_calls ?u)")
    case (Popen_raises e)
    show ?thesis
      using s cu unfolding start_server_raises [OF Popen_raises]
      by (auto simp: managed_alive_def is_alive_def emit_def split: option.splits)
  next
    case (Spawn exits info)
    show ?thesis
    proof (cases exits)
      case True
      then have sp: "popen_script ?u (popen_calls ?u) = Spawn True info" using Spawn by simp
      show ?thesis
        using s unfolding start_server_exits [OF sp]
        by (auto simp: managed_alive_def is_alive_def emit_def spawned_def sleep_def
            set_dead_def)
    next
      case False
      then have sp: "popen_script ?u (popen_calls ?u) = Spawn False info" using Spawn by simp
      show ?thesis using s unfolding start_server_stays [OF sp] by simp
    qed
  qed
qed

lemma retry_loop:
  "stoppable m w
     \<Longrightarrow> fails_from w (max 1 (nat (max_retries m - retry_count m)))
     \<Longrightarrow> gave_up m w (max 1 (nat (max_retries m - retry_count m)))
           (max 1 (nat (max_retries m - retry_count m)) - 1)
           (\<not> managed_alive m (snd (kill_current_process m (emit (Print Restarting) w))))
           (restart_server m w)"
  "calm m w
     \<Longrightarrow> fails_from w (nat (max_retries m - retry_count m - 1))
     \<Longrightarrow> gave_up m w (nat (max_retries m - retry_count m - 1))
           (nat (max_retries m - retry_count m - 1)) (\<not> managed_alive m w)
           (handle_restart_failure m w)"
proof (induction m w and m w rule: restart_server_handle_restart_failure.induct)
  case (1 m w)
  let ?K = "max 1 (nat (max_retries m - retry_count m))"
  let ?w0 = "emit (Print Restarting) w"
  obtain x w1 where k: "kill_current_process m ?w0 = (x, w1)"
    by (cases "kill_current_process m ?w0") auto
  have "stoppable m ?w0" using "1.prems"(1) by simp
  then have x: "x = None" using k by (simp add: stoppable_def)
  have c1: "calm m w1" using k x by (simp add: kill_none_calm)
  have a1: "advances w w1"
    using advances_emit [of "Print Restarting" w] advances_kill_current_process [of ?w0 m] k
    by (auto intro: advances_trans)
  have q1: "quiet w w1"
    using quiet_emit [of "Print Restarting" w] quiet_kill_current_process [of ?w0 m] k
    by (auto intro: quiet_trans)
  let ?ws = "sleep 2000 w1"
  have as: "advances w ?ws" using a1 advances_sleep [of 2000 w1] by (auto intro: advances_trans)
  have qs: "quiet w ?ws" using q1 quiet_sleep [of w1 2000] by (auto intro: quiet_trans)
  have cs: "popen_calls ?ws = popen_calls w" and rs: "retry_lines (trace ?ws) = retry_lines (trace w)"
    using qs by (simp_all add: quiet_def)
  have ss: "popen_script ?ws = popen_script w" using as by (simp add: advances_def)
  have cc: "calm m ?ws" using c1 by simp
  have f: "launch_fails (popen_script ?ws (popen_calls ?ws))"
    unfolding cs ss using fails_fromD [OF "1.prems"(2), of "popen_calls w"] by simp
  obtain ok m' w2 where s: "start_server m ?ws = (ok, m', w2)"
    by (cases "start_server m ?ws") auto
  note sf = start_server_fails [OF f s]
  have s': "start_server m ?ws = (False, m', w2)" using s sf(1) by simp
  note sc = start_server_false_calm [OF cc s']
  let ?w3 = "emit (Print Restart_failed) w2"
  have c3: "calm m' ?w3" using sc(1) by simp
  have p3: "popen_calls ?w3 = Suc (popen_calls w)" using sf(2) cs by (simp add: emit_def)
  have s3: "popen_script ?w3 = popen_script w" using sf(3) ss by (simp add: emit_def)
  have r3: "retry_lines (trace ?w3) = retry_lines (trace w)"
    using sf(4) rs by (simp add: emit_def retry_lines_def)
  have f3: "fails_from ?w3 (nat (max_retries m' - retry_count m' - 1))"
    using "1.prems"(2) s3
  proof (rule fails_from_shift)
    show "popen_calls w \<le> popen_calls ?w3" using p3 by simp
    show "popen_calls ?w3 + nat (max_retries m' - retry_count m' - 1) \<le> popen_calls w + ?K"
      using p3 sc(2,3) by simp
  qed
  have ih: "gave_up m' ?w3 (nat (max_retries m' - retry_count m' - 1))
           (nat (max_retries m' - retry_count m' - 1)) (\<not> managed_alive m' ?w3)
           (handle_restart_failure m' ?w3)"
    using "1.IH" [OF k [symmetric] x s [symmetric] refl sf(1) c3 f3] .
  have i3: "\<not> managed_alive m' ?w3" if "\<not> managed_alive m w1"
    using start_server_false_idle [OF _ s'] that by simp
  have e: "restart_server m w = handle_restart_failure m' ?w3"
    using k x s sf(1) by (simp add: restart_server.simps)
  have n: "Suc (nat (max_retries m' - retry_count m' - 1)) = ?K"
    using sc(2,3) by simp
  show ?case
    unfolding e using ih p3 r3 sc(2) n i3 k
    by (auto simp: gave_up_def)
next
  case (2 m w)
  let ?m1 = "m\<lparr>retry_count := retry_count m + 1\<rparr>"
  show ?case
  proof (cases "retry_count ?m1 < max_retries ?m1")
    case True
    let ?w1 = "sleep 3000 (emit (Print (Retry (retry_count ?m1) (max_retries ?m1))) w)"
    have c1: "calm ?m1 ?w1" using "2.prems"(1) by simp
    then have r1: "stoppable ?m1 ?w1" by (rule calm_stoppable)
    have k: "max 1 (nat (max_retries ?m1 - retry_count ?m1)) = nat (max_retries m - retry_count m - 1)"
      using True by simp
    have f1: "fails_from ?w1 (max 1 (nat (max_retries ?m1 - retry_count ?m1)))"
      unfolding k using "2.prems"(2)
      by (rule fails_from_shift) (simp_all add: sleep_def emit_def)
    have ih: "gave_up ?m1 ?w1 (max 1 (nat (max_retries ?m1 - retry_count ?m1)))
           (max 1 (nat (max_retries ?m1 - retry_count ?m1)) - 1)
           (\<not> managed_alive ?m1 (snd (kill_current_process ?m1 (emit (Print Restarting) ?w1))))
           (restart_server ?m1 ?w1)"
      using "2.IH" [OF refl True r1 f1] .
    have idle: "\<not> managed_alive ?m1 (snd (kill_current_process ?m1 (emit (Print Restarting) ?w1)))"
      if "\<not> managed_alive m w"
    proof -
      have "\<not> managed_alive ?m1 (emit (Print Restarting) ?w1)" using that by simp
      then show ?thesis by (simp add: kill_current_process_idle)
    qed
    have e: "handle_restart_failure m w = restart_server ?m1 ?w1"
      using True by (simp add: handle_restart_failure.simps Let_def)
    have pos: "0 < nat (max_retries m - retry_count m - 1)" using True by simp
    show ?thesis
      unfolding e using ih pos idle unfolding k
      by (auto simp: gave_up_def sleep_def emit_def retry_lines_def)
  next
    case False
    then have z: "nat (max_retries m - retry_count m - 1) = 0" by simp
    have e: "handle_restart_failure m w = (None, ?m1\<lparr>retry_count := 0\<rparr>, emit (Print Max_retries) w)"
      using False by (simp add: handle_restart_failure.simps Let_def)
    show ?thesis
      unfolding e z using "2.prems"(1)
      by (simp add: gave_up_def) (simp add: emit_def retry_lines_def)
  qed
qed

lemma after_restart:
  "restart_server m w = (None, m', w')
     \<Longrightarrow> retry_count m' = 0 \<and> max_retries m' = max_retries m
         \<and> (trace w' \<noteq> [] \<and> last (trace w') = Print Max_retries \<longrightarrow> calm m' w')"
  "calm m w \<Longrightarrow> handle_restart_failure m w = (None, m', w')
     \<Longrightarrow> retry_count m' = 0 \<and> max_retries m' = max_retries m
         \<and> (trace w' \<noteq> [] \<and> last (trace w') = Print Max_retries \<longrightarrow> calm m' w')"
proof (induction m w and m w arbitrary: m' w' and m' w'
    rule: restart_server_handle_restart_failure.induct)
  case (1 m w)
  let ?w0 = "emit (Print Restarting) w"
  obtain x w1 where k: "kill_current_process m ?w0 = (x, w1)"
    by (cases "kill_current_process m ?w0") auto
  have x: "x = None"
    using "1.prems" k by (cases x) (simp_all add: restart_server.simps)
  have c1: "calm m w1" using k x by (simp add: kill_none_calm)
  let ?ws = "sleep 2000 w1"
  have cc: "calm m ?ws" using c1 by simp
  obtain ok m2 w2 where s: "start_server m ?ws = (ok, m2, w2)"
    by (cases "start_server m ?ws") auto
  show ?case
  proof (cases ok)
    case True
    then have r: "m' = m2" "w' = emit (Print Restarted_ok) w2"
      using "1.prems" k x s by (simp_all add: restart_server.simps)
    have s': "start_server m ?ws = (True, m2, w2)" using s True by simp
    show ?thesis using start_server_true [OF s'] r by (simp add: emit_def)
  next
    case False
    then have s': "start_server m ?ws = (False, m2, w2)" using s by simp
    note sc = start_server_false_calm [OF cc s']
    let ?w3 = "emit (Print Restart_failed) w2"
    have c3: "calm m2 ?w3" using sc(1) by simp
    have e: "handle_restart_failure m2 ?w3 = (None, m', w')"
      using "1.prems" k x s False by (simp add: restart_server.simps)
    show ?thesis
      using "1.IH" [OF k [symmetric] x s [symmetric] refl False c3 e] sc(2) by simp
  qed
next
  case (2 m w)
  let ?m1 = "m\<lparr>retry_count := retry_count m + 1\<rparr>"
  show ?case
  proof (cases "retry_count ?m1 < max_retries ?m1")
    case True
    let ?w1 = "sleep 3000 (emit (Print (Retry (retry_count ?m1) (max_retries ?m1))) w)"
    have e: "restart_server ?m1 ?w1 = (None, m', w')"
      using "2.prems"(2) True by (simp add: handle_restart_failure.simps Let_def)
    show ?thesis using "2.IH" [OF refl True e] by simp
  next
    case False
    then have "m' = ?m1\<lparr>retry_count := 0\<rparr>" "w' = emit (Print Max_retries) w"
      using "2.prems"(2) by (simp_all add: handle_restart_failure.simps Let_def)
    then show ?thesis using "2.prems"(1) by simp
  qed
qed


lemma calm_procs: "procs w2 = procs w \<Longrightarrow> calm m w2 = calm m w"
  by (simp add: calm_def is_alive_def split: option.splits)



lemma flaky_restart:
  "restart_server running_manager flaky_world
     = (None, init_manager\<lparr>process := Some 3\<rparr>, abandoned_world)"
  by (simp add: restart_server.simps handle_restart_failure.simps kill_current_process_def
      running_manager_def init_manager_def flaky_world_def start_server_def
      kill_process_on_port_def emit_def sleep_def wait_def set_dead_def is_alive_def
      healthy_def Let_def abandoned_world_def)


lemma flaky_facts:
  "stoppable running_manager flaky_world" "responsive running_manager flaky_world"
  "fails_from flaky_world 3" "fails_from (abandoned_world\<lparr>clock := 60000\<rparr>) 3"
  "retry_count running_manager = 0" "max_retries running_manager = 3"
proof -
  show "stoppable running_manager flaky_world"
    by (simp add: stoppable_def kill_current_process_def running_manager_def init_manager_def
        flaky_world_def healthy_def is_alive_def emit_def Let_def)
  show "responsive running_manager flaky_world"
    by (simp add: responsive_def running_manager_def init_manager_def flaky_world_def
        healthy_def signals_ok_def)
  have u: "[Suc 0..<4] = [1, 2, 3]" "[4..<7] = [4, 5, 6]" by (simp_all add: upt_rec)
  show "fails_from flaky_world 3"
    by (simp add: fails_from_def flaky_world_def launch_fails_def u)
  show "fails_from (abandoned_world\<lparr>clock := 60000\<rparr>) 3"
    by (simp add: fails_from_def abandoned_world_def launch_fails_def u)
  show "retry_count running_manager = 0" "max_retries running_manager = 3"
    by (simp_all add: running_manager_def init_manager_def)
qed


subsection \<open>Events the handler ignores\<close>

text \<open>
  C7. An event for a directory, an event whose path does not end in \<^verbatim>\<open>.py\<close> or
  \<^verbatim>\<open>.css\<close>, and an event whose path ends in \<^verbatim>\<open>.pyc\<close> or contains \<^verbatim>\<open>__pycache__\<close>
  returns without an exception and leaves the whole state as it was: the debounce clock,
  the in-flight flag, the manager with its process, and the world, so nothing was
  printed and no process was touched.
\<close>

theorem ignored_event_leaves_state:
  assumes "is_directory ev
         \<or> \<not> (endswith (src_path ev) ''.py'' \<or> endswith (src_path ev) ''.css'')
         \<or> contains ''__pycache__'' (src_path ev)
         \<or> endswith (src_path ev) ''.pyc''"
  shows "handle_file_change ev s = (None, s)"
  using assms by (cases s) (auto simp: handle_file_change_def)

theorem ignored_event_leaves_state_witness:
  "is_directory dir_event
   \<and> handle_file_change dir_event (init_handler, init_manager, idle_world)
       = (None, init_handler, init_manager, idle_world)
   \<and> endswith (src_path pyc_event) ''.pyc''
   \<and> handle_file_change pyc_event (init_handler, init_manager, idle_world)
       = (None, init_handler, init_manager, idle_world)
   \<and> contains ''__pycache__'' (src_path cache_event)
   \<and> handle_file_change cache_event (init_handler, init_manager, idle_world)
       = (None, init_handler, init_manager, idle_world)"
  using ignored_event_leaves_state [of dir_event "(init_handler, init_manager, idle_world)"]
    ignored_event_leaves_state [of pyc_event "(init_handler, init_manager, idle_world)"]
    ignored_event_leaves_state [of cache_event "(init_handler, init_manager, idle_world)"]
  by (simp add: pyc_event_path cache_event_path dir_event_def)


subsection \<open>The order of the handler's checks\<close>

text \<open>
  C1. The handler treats every event of every run as the specified list of checks does:
  directory, extension, excluded path, pending restart, debounce interval, and acceptance
  when none of them fires. The source tests the debounce interval before the pending flag,
  but the two orders differ only for a handler whose flag is set while the debounce
  interval since the last accepted event is still running, and no run gets there: the flag
  is set only when an event is accepted, and the restart that follows keeps the observer
  thread for at least two seconds. So the observer's loop gives the same result with the
  specified order as with the handler, from the initial handler, for every list of events;
  the handler is \<open>settled\<close> initially and stays so with every event, every tick of the
  clock and every run of the reset thread, and a settled handler agrees with the specified
  order on every event. An event that passes all checks is accepted: the debounce clock is
  set to the time of acceptance and the pending flag is set, whatever the restart does
  afterwards; the restart takes at least two seconds, so the clock was reset before it
  completed; and exactly one restart is triggered.
\<close>

theorem handle_file_change_spec_order:
  "dispatch_by spec_order evs (init_handler, m0, w0) = dispatch evs (init_handler, m0, w0)
   \<and> settled init_handler w0
   \<and> (settled h w \<longrightarrow>
        handle_file_change ev (h, m, w) = apply_checks spec_order ev (h, m, w)
        \<and> settled (fst (snd (handle_file_change ev (h, m, w))))
            (snd (snd (snd (handle_file_change ev (h, m, w)))))
        \<and> settled (fire_timers h (w\<lparr>clock := max (clock w) t\<rparr>)) (w\<lparr>clock := max (clock w) t\<rparr>))
   \<and> (accepts ev h (clock w) \<longrightarrow>
        (case handle_file_change ev (h, m, w) of
           (x, h', m', w') \<Rightarrow>
             last_reload h' = clock w \<and> pending_restart h'
             \<and> clock w + 2000 \<le> clock w'
             \<and> restarts_triggered (trace w') = Suc (restarts_triggered (trace w))))"
proof (intro conjI impI)
  show "dispatch_by spec_order evs (init_handler, m0, w0) = dispatch evs (init_handler, m0, w0)"
    using settled_init by (rule dispatch_by_spec_order)
  show "settled init_handler w0" by (rule settled_init)
next
  assume s: "settled h w"
  show "handle_file_change ev (h, m, w) = apply_checks spec_order ev (h, m, w)"
    using settled_spec_order [OF s] by (simp add: handle_file_change_checks)
  obtain x h' m' w' where r: "handle_file_change ev (h, m, w) = (x, h', m', w')"
    by (cases "handle_file_change ev (h, m, w)") auto
  show "settled (fst (snd (handle_file_change ev (h, m, w))))
            (snd (snd (snd (handle_file_change ev (h, m, w)))))"
    using settled_handle_file_change [OF s r] r by simp
  show "settled (fire_timers h (w\<lparr>clock := max (clock w) t\<rparr>)) (w\<lparr>clock := max (clock w) t\<rparr>)"
    using s by (intro settled_fire_timers settled_later) simp_all
next
  assume a: "accepts ev h (clock w)"
  obtain x h' m' w' where r: "accept_event ev (h, m, w) = (x, h', m', w')"
    by (cases "accept_event ev (h, m, w)") auto
  show "case handle_file_change ev (h, m, w) of
           (x, h', m', w') \<Rightarrow>
             last_reload h' = clock w \<and> pending_restart h'
             \<and> clock w + 2000 \<le> clock w'
             \<and> restarts_triggered (trace w') = Suc (restarts_triggered (trace w))"
    using accept_event_facts(1,2,4,5) [OF r]
    by (simp add: handle_file_change_accepted [OF a] r)
qed

theorem handle_file_change_spec_order_witness:
  "settled restarted_handler restarted_world
   \<and> handle_file_change py_event (restarted_handler, running_manager, restarted_world)
       = apply_checks spec_order py_event (restarted_handler, running_manager, restarted_world)
   \<and> apply_checks spec_order py_event (restarted_handler, running_manager, restarted_world)
       = (None, restarted_handler, running_manager,
          emit (Print (Additional_change ''ui_components.py'')) restarted_world)
   \<and> accepts py_event init_handler (clock late_world)
   \<and> (case handle_file_change py_event (init_handler, init_manager, late_world) of
         (x, h', m', w') \<Rightarrow>
           last_reload h' = clock late_world \<and> pending_restart h'
           \<and> clock late_world + 2000 \<le> clock w'
           \<and> restarts_triggered (trace w') = Suc (restarts_triggered (trace late_world)))"
proof -
  have s: "settled restarted_handler restarted_world"
    by (simp add: settled_def restarted_handler_def restarted_world_def)
  note t = handle_file_change_spec_order [where h = restarted_handler and w = restarted_world
      and ev = py_event and m = running_manager]
  have 1: "handle_file_change py_event (restarted_handler, running_manager, restarted_world)
       = apply_checks spec_order py_event (restarted_handler, running_manager, restarted_world)"
    using t s by blast
  have n: "path_name (src_path py_event) = ''ui_components.py''"
    unfolding py_event_def path_name_def by code_simp
  have 2: "apply_checks spec_order py_event (restarted_handler, running_manager, restarted_world)
       = (None, restarted_handler, running_manager,
          emit (Print (Additional_change ''ui_components.py'')) restarted_world)"
    by (simp add: apply_checks_def spec_order_def py_event_path py_event_clean n
        restarted_handler_def)
  note u = handle_file_change_spec_order [where h = init_handler and w = late_world
      and ev = py_event and m = init_manager, THEN conjunct2, THEN conjunct2, THEN conjunct2,
      THEN mp, OF py_event_accepted]
  show ?thesis using s 1 2 py_event_accepted u by blast
qed


subsection \<open>The pending flag\<close>

text \<open>
  C9. When the handler accepts an event, \<open>pending_restart\<close> is set before
  \<^verbatim>\<open>restart_server\<close> is called, which cannot reach the handler's fields. When the restart
  attempt returns, whether the server was restarted or the retries were abandoned, the
  flag is still set and the reset thread is due exactly one second after the return. Until
  then the flag stays set; from then on it is cleared, and every eligible event is
  accepted again.
\<close>

theorem pending_flag_lifecycle:
  assumes "accepts ev h (clock w)" and "reload_delay h = 2000"
    and "handle_file_change ev (h, m, w) = (None, h', m', w')"
  shows "pending_restart h' \<and> reset_due h' = Some (clock w' + 1000)
       \<and> (\<forall>u. clock u < clock w' + 1000 \<longrightarrow> pending_restart (fire_timers h' u))
       \<and> (\<forall>u. clock w' + 1000 \<le> clock u \<longrightarrow>
             \<not> pending_restart (fire_timers h' u)
             \<and> (\<forall>ev'. eligible ev' \<longrightarrow> accepts ev' (fire_timers h' u) (clock u)))"
proof -
  have r: "accept_event ev (h, m, w) = (None, h', m', w')"
    using assms(1,3) by (simp add: handle_file_change_accepted)
  note f = accept_event_facts [OF r]
  have due: "reset_due h' = Some (clock w' + 1000)" using f(6) by simp
  have 1: "pending_restart (fire_timers h' u)" if "clock u < clock w' + 1000" for u
    using that f(2) due by (simp add: fire_timers_def)
  have 2: "\<not> pending_restart (fire_timers h' u)
         \<and> (\<forall>ev'. eligible ev' \<longrightarrow> accepts ev' (fire_timers h' u) (clock u))"
    if "clock w' + 1000 \<le> clock u" for u
    using that due f(1,3,4) assms(2) by (auto simp: fire_timers_def accepts_eligible)
  show ?thesis using f(2) due 1 2 by blast
qed


theorem pending_flag_lifecycle_witness:
  "accepts py_event init_handler (clock late_world)
   \<and> handle_file_change py_event (init_handler, init_manager, late_world)
       = (None, restarted_handler, init_manager\<lparr>process := Some 0\<rparr>, restarted_world)
   \<and> pending_restart restarted_handler
   \<and> reset_due restarted_handler = Some (clock restarted_world + 1000)
   \<and> pending_restart (fire_timers restarted_handler (restarted_world\<lparr>clock := 15999\<rparr>))
   \<and> \<not> pending_restart (fire_timers restarted_handler (restarted_world\<lparr>clock := 16000\<rparr>))
   \<and> accepts py_event (fire_timers restarted_handler (restarted_world\<lparr>clock := 16000\<rparr>)) 16000"
proof -
  have d: "reload_delay init_handler = 2000" by (simp add: init_handler_def)
  note t = pending_flag_lifecycle [OF py_event_accepted d late_handle]
  have c: "clock restarted_world = 15000" by (simp add: restarted_world_def)
  from t have 1: "pending_restart restarted_handler"
    and 2: "reset_due restarted_handler = Some (clock restarted_world + 1000)" by blast+
  from t have 3: "pending_restart (fire_timers restarted_handler (restarted_world\<lparr>clock := 15999\<rparr>))"
    using c by simp
  from t have "clock restarted_world + 1000 \<le> clock (restarted_world\<lparr>clock := 16000\<rparr>) \<longrightarrow>
       \<not> pending_restart (fire_timers restarted_handler (restarted_world\<lparr>clock := 16000\<rparr>))
       \<and> (\<forall>ev'. eligible ev' \<longrightarrow>
             accepts ev' (fire_timers restarted_handler (restarted_world\<lparr>clock := 16000\<rparr>))
               (clock (restarted_world\<lparr>clock := 16000\<rparr>)))"
    by blast
  then have 4: "\<not> pending_restart (fire_timers restarted_handler (restarted_world\<lparr>clock := 16000\<rparr>))"
    and 5: "accepts py_event (fire_timers restarted_handler (restarted_world\<lparr>clock := 16000\<rparr>)) 16000"
    using c py_event_eligible by auto
  show ?thesis using py_event_accepted late_handle 1 2 3 4 5 by blast
qed


subsection \<open>Bursts of events\<close>







subsection \<open>Stopping twice\<close>







subsection \<open>Exceptions that leave the manager\<close>

text \<open>
  C8 fails on the code. \<^verbatim>\<open>kill_current_process\<close> catches what \<^verbatim>\<open>terminate()\<close> and the
  bounded \<^verbatim>\<open>wait\<close> raise, but the forced kill runs inside the \<^verbatim>\<open>except TimeoutExpired\<close>
  handler, where the sibling \<^verbatim>\<open>except Exception\<close> does not apply. When the server
  ignores the terminate signal and \<^verbatim>\<open>kill()\<close> raises \<^verbatim>\<open>OSError\<close>, the exception leaves
  \<^verbatim>\<open>kill_current_process\<close>, and with it \<^verbatim>\<open>stop_server\<close>, \<^verbatim>\<open>restart_server\<close> and the
  handler, none of which has a \<^verbatim>\<open>try\<close>; the server is still running.
\<close>

theorem forced_kill_exception_escapes:
  "kill_current_process running_manager stuck_world
     = (Some OSError,
        stuck_world\<lparr>clock := 20000,
          trace := [Print Stopping_current, Terminate 0, Wait 0 5000, Print Force_killing,
                    Kill 0]\<rparr>)
   \<and> fst (stop_server running_manager stuck_world) = Some OSError
   \<and> fst (restart_server running_manager stuck_world) = Some OSError
   \<and> fst (handle_file_change py_event (init_handler, running_manager, stuck_world))
       = Some OSError
   \<and> is_alive (snd (snd (restart_server running_manager stuck_world))) 0"
proof -
  have p: "process running_manager = Some 0"
    by (simp add: running_manager_def)
  have l: "is_alive stuck_world 0" by (simp add: is_alive_def stuck_world_def stubborn_def)
  have t: "on_term (procs stuck_world ! 0) = Term_hangs"
    and k: "on_kill (procs stuck_world ! 0) = Kill_raises OSError"
    by (simp_all add: stuck_world_def stubborn_def)
  have a: "accepts py_event init_handler (clock stuck_world)"
    by (simp add: accepts_iff py_event_path py_event_clean init_handler_def stuck_world_def)
  have f: "forced_kill_raised 0 stuck_world
     = stuck_world\<lparr>clock := 20000,
          trace := [Print Stopping_current, Terminate 0, Wait 0 5000, Print Force_killing,
                    Kill 0]\<rparr>"
    by (simp add: forced_kill_raised_def emit_def wait_def stuck_world_def)
  have 1: "kill_current_process running_manager stuck_world
     = (Some OSError,
        stuck_world\<lparr>clock := 20000,
          trace := [Print Stopping_current, Terminate 0, Wait 0 5000, Print Force_killing,
                    Kill 0]\<rparr>)"
    using kill_current_process_kill_raises [OF p l t k] f by simp
  have 2: "fst (stop_server running_manager stuck_world) = Some OSError"
    by (simp add: stop_server_kill_raises [OF p l t k])
  have 3: "fst (restart_server running_manager stuck_world) = Some OSError"
    by (simp add: restart_server_kill_raises [OF p l t k])
  have 4: "fst (handle_file_change py_event (init_handler, running_manager, stuck_world))
       = Some OSError"
    by (rule handle_file_change_kill_raises [OF a p l t k])
  have 5: "is_alive (snd (snd (restart_server running_manager stuck_world))) 0"
    using kill_raises_emit(1) [OF l t k, of "Print Restarting"]
    by (simp add: restart_server_kill_raises [OF p l t k] is_alive_forced_kill_raised)
  show ?thesis using 1 2 3 4 5 by blast
qed


subsection \<open>Retries after a failed launch\<close>









subsection \<open>The retry counter after a restart\<close>

text \<open>
  C10. Whenever \<^verbatim>\<open>restart_server\<close> returns without an exception, whether the server was
  restarted or the retries were abandoned, the retry counter is 0 and the budget is
  unchanged; a launch that succeeds sets the counter to 0. So after an abandoned restart
  the next restart has the full budget: if the next three launches fail as well, it makes
  all three of them and announces two retries before it gives up again.
\<close>

theorem retry_budget_restored:
  "(restart_server m w = (None, m', w') \<longrightarrow>
      retry_count m' = 0 \<and> max_retries m' = max_retries m)
   \<and> (start_server m w = (True, m', w') \<longrightarrow> retry_count m' = 0)
   \<and> (restart_server m w = (None, m', w') \<and> trace w' \<noteq> []
        \<and> last (trace w') = Print Max_retries \<and> max_retries m = 3
        \<and> procs w2 = procs w' \<and> fails_from w2 3 \<longrightarrow>
        (case restart_server m' w2 of
           (x, m2, w3) \<Rightarrow>
             x = None \<and> popen_calls w3 = popen_calls w2 + 3
             \<and> retry_lines (trace w3) = retry_lines (trace w2) + 2
             \<and> last (trace w3) = Print Max_retries \<and> retry_count m2 = 0))"
proof (intro conjI impI)
  assume "restart_server m w = (None, m', w')"
  from after_restart(1) [OF this]
  show "retry_count m' = 0" and "max_retries m' = max_retries m" by simp_all
next
  assume "start_server m w = (True, m', w')"
  then show "retry_count m' = 0" by (rule start_server_true(1))
next
  assume a: "restart_server m w = (None, m', w') \<and> trace w' \<noteq> []
        \<and> last (trace w') = Print Max_retries \<and> max_retries m = 3
        \<and> procs w2 = procs w' \<and> fails_from w2 3"
  then have r: "restart_server m w = (None, m', w')" by simp
  note f = after_restart(1) [OF r]
  have "calm m' w'" using f a by simp
  moreover have "calm m' w2 = calm m' w'" using a by (intro calm_procs) simp
  ultimately have c: "calm m' w2" by simp
  then have s: "stoppable m' w2" by (rule calm_stoppable)
  have k: "max 1 (nat (max_retries m' - retry_count m')) = 3" using f a by simp
  have g: "gave_up m' w2 3 2
      (\<not> managed_alive m' (snd (kill_current_process m' (emit (Print Restarting) w2))))
      (restart_server m' w2)"
    using retry_loop(1) [of m' w2] s a unfolding k by simp
  then show "case restart_server m' w2 of
           (x, m2, w3) \<Rightarrow>
             x = None \<and> popen_calls w3 = popen_calls w2 + 3
             \<and> retry_lines (trace w3) = retry_lines (trace w2) + 2
             \<and> last (trace w3) = Print Max_retries \<and> retry_count m2 = 0"
    by (auto simp: gave_up_def)
qed


theorem retry_budget_restored_witness:
  "restart_server running_manager flaky_world
       = (None, init_manager\<lparr>process := Some 3\<rparr>, abandoned_world)
   \<and> retry_count (init_manager\<lparr>process := Some 3\<rparr>) = 0
   \<and> start_server (init_manager\<lparr>retry_count := 2\<rparr>) late_world
       = (True, init_manager\<lparr>process := Some 0\<rparr>, started_world)
   \<and> trace abandoned_world \<noteq> [] \<and> last (trace abandoned_world) = Print Max_retries
   \<and> max_retries running_manager = 3
   \<and> procs (abandoned_world\<lparr>clock := 60000\<rparr>) = procs abandoned_world
   \<and> fails_from (abandoned_world\<lparr>clock := 60000\<rparr>) 3
   \<and> (case restart_server (init_manager\<lparr>process := Some 3\<rparr>)
              (abandoned_world\<lparr>clock := 60000\<rparr>) of
         (x, m2, w3) \<Rightarrow>
           x = None \<and> popen_calls w3 = 7 \<and> retry_lines (trace w3) = 4
           \<and> last (trace w3) = Print Max_retries \<and> retry_count m2 = 0)"
proof -
  have s: "start_server (init_manager\<lparr>retry_count := 2\<rparr>) late_world
       = (True, init_manager\<lparr>process := Some 0\<rparr>, started_world)"
    by (simp add: start_server_def kill_process_on_port_def init_manager_def late_world_def
        healthy_def emit_def sleep_def is_alive_def Let_def started_world_def)
  have l: "trace abandoned_world \<noteq> []" "last (trace abandoned_world) = Print Max_retries"
    by (simp_all add: abandoned_world_def)
  have h: "restart_server running_manager flaky_world
        = (None, init_manager\<lparr>process := Some 3\<rparr>, abandoned_world)
      \<and> trace abandoned_world \<noteq> []
      \<and> last (trace abandoned_world) = Print Max_retries \<and> max_retries running_manager = 3
      \<and> procs (abandoned_world\<lparr>clock := 60000\<rparr>) = procs abandoned_world
      \<and> fails_from (abandoned_world\<lparr>clock := 60000\<rparr>) 3"
    using flaky_restart l flaky_facts by simp
  note t = retry_budget_restored [where m = running_manager and w = flaky_world
      and m' = "init_manager\<lparr>process := Some 3\<rparr>" and w' = abandoned_world
      and ?w2.0 = "abandoned_world\<lparr>clock := 60000\<rparr>"]
  note 1 = t [THEN conjunct1, THEN mp, OF flaky_restart]
  have c: "popen_calls (abandoned_world\<lparr>clock := 60000\<rparr>) = 4"
    "retry_lines (trace (abandoned_world\<lparr>clock := 60000\<rparr>)) = 2"
    by (simp_all add: abandoned_world_def retry_lines_def)
  have 3: "case restart_server (init_manager\<lparr>process := Some 3\<rparr>)
              (abandoned_world\<lparr>clock := 60000\<rparr>) of
         (x, m2, w3) \<Rightarrow>
           x = None \<and> popen_calls w3 = 7 \<and> retry_lines (trace w3) = 4
           \<and> last (trace w3) = Print Max_retries \<and> retry_count m2 = 0"
    using t [THEN conjunct2, THEN conjunct2, THEN mp, OF h] unfolding c
    by (simp split: prod.splits)
  show ?thesis using h s 1 3 by blast
qed


end
